theory Spec2Isabelle
  imports Main "HOL-Library.Word" "HOL-Library.Signed_Division"
begin

unbundle bit_operations_syntax

section \<open>duplicateScanner: the file registry and the traversal driver\<close>

text \<open>
  A shallow embedding of \<^verbatim>\<open>duplicateTracker.c\<close> (the hash table of file records) and of the
  traversal functions of \<^verbatim>\<open>duplicateScanner.c\<close>.

  Conventions of the embedding:
  \<^item> \<^verbatim>\<open>long\<close> is the 64-bit two's complement integer of an LP64 platform; arithmetic on it
    wraps around, \<^verbatim>\<open>%\<close> truncates towards zero.
  \<^item> \<^verbatim>\<open>char\<close> is a signed byte: a byte above 127 is sign-extended when it is promoted.
  \<^item> \<^verbatim>\<open>time_t\<close> is an integer; \<^verbatim>\<open>difftime\<close> is the difference of its arguments, of which the
    code only tests the sign.
  \<^item> An access outside the bytes of an object, or through a null pointer, is undefined
    behaviour in C. The embedding makes it a value of type \<open>fault\<close>, which every caller
    propagates.
  \<^item> \<^verbatim>\<open>ctime\<close> belongs to the C library. The functions that call it take it as the
    parameter \<open>ctime\<close>: the text it returns for a time, \<open>None\<close> where it returns the null
    pointer.
  \<^item> A \<^verbatim>\<open>const char *\<close> argument of the public functions is given by the characters of the
    string it points to (\<open>None\<close> is the null pointer).
  \<^item> The static variables \<^verbatim>\<open>fileTable\<close> and \<^verbatim>\<open>fileCount\<close>, the allocator and the two output
    streams form the record \<open>process\<close>; every function takes it and returns it updated.
  \<^item> \<^verbatim>\<open>fileCount\<close> is an unbounded integer: every counted record owns a live allocation of
    4096 bytes, so the counter cannot reach \<open>2 ^ 63\<close>.
\<close>

subsection \<open>Memory objects and faults\<close>

type_synonym long = "64 word"
type_synonym time_t = int

datatype fault = OutOfBounds int | NullDereference

text \<open>
  An array of \<open>capacity\<close> chars. Its first bytes are \<open>content\<close>, every byte after them is
  NUL (what \<^verbatim>\<open>strncpy\<close> leaves in the rest of its destination, and the terminator of a
  string literal).
\<close>

record cbuf =
  content :: string
  capacity :: nat

definition NUL :: char where
  "NUL = CHR 0x00"

definition rd :: "cbuf \<Rightarrow> nat \<Rightarrow> fault + char" where
  "rd b i =
     (if i < capacity b
      then Inr (if i < length (content b) then content b ! i else NUL)
      else Inl (OutOfBounds (int i)))"

text \<open>The object that holds exactly the string \<open>s\<close> and its terminator.\<close>

definition cstr :: "string \<Rightarrow> cbuf" where
  "cstr s = \<lparr>content = s, capacity = length s + 1\<rparr>"

text \<open>
  \<open>string_at b k s\<close>: the NUL-terminated string that starts at offset \<open>k\<close> of \<open>b\<close> is \<open>s\<close>, and
  it lies inside \<open>b\<close>.
\<close>

fun string_at :: "cbuf \<Rightarrow> nat \<Rightarrow> string \<Rightarrow> bool" where
  "string_at b k [] = (rd b k = Inr NUL)"
| "string_at b k (c # s) = (c \<noteq> NUL \<and> rd b k = Inr c \<and> string_at b (k + 1) s)"

text \<open>Reading a string for \<^verbatim>\<open>%s\<close>: the chars from offset \<open>k\<close> up to the terminator.\<close>

function c_string :: "cbuf \<Rightarrow> nat \<Rightarrow> fault + string" where
  "c_string b k =
     (case rd b k of
        Inl e \<Rightarrow> Inl e
      | Inr c \<Rightarrow>
          if c = NUL then Inr []
          else (case c_string b (k + 1) of Inl e \<Rightarrow> Inl e | Inr s \<Rightarrow> Inr (c # s)))"
  by pat_completeness auto
termination
  by (relation "measure (\<lambda>(b, k). capacity b - k)") (auto simp: rd_def split: if_splits)

declare c_string.simps [simp del]

subsection \<open>duplicateTracker.h\<close>

definition NAME_MAX :: nat where
  "NAME_MAX = 255"

definition MAX_PATH :: nat where
  "MAX_PATH = 4096"

subsection \<open>duplicateTracker.c: file records\<close>

record File =
  filePath :: cbuf
  modified :: time_t

text \<open>
  A chain of \<^verbatim>\<open>struct node\<close> linked by \<^verbatim>\<open>next\<close> and ended by \<^verbatim>\<open>NULL\<close> is the list of its
  \<open>File\<close>s, head first. Every node is allocated by \<^verbatim>\<open>newNode\<close> for one insertion and linked
  into one chain, so no two chains share a node.
\<close>

type_synonym chain = "File list"

datatype event =
    Err_CantAccessFile string
  | Err_CantAccessDirectory string
  | Err_PathTooLong string
  | Err_NotLogged
  | Err_Uninitialized
  | Note_Scanning string
  | NoMatch
  | FileHeader nat string
  | FileLine int string string
  | Newline

record process =
  fileTable :: "(nat \<Rightarrow> chain) option"
  fileCount :: int
  malloc_ok :: "nat \<Rightarrow> bool"
  mallocs :: nat
  printed :: "event list"

text \<open>
  The state at program start: static storage is zero, nothing is allocated or printed.
  \<open>mem\<close> tells for each allocation request, in order, whether it will succeed.
\<close>

definition initial_process :: "(nat \<Rightarrow> bool) \<Rightarrow> process" where
  "initial_process mem =
     \<lparr>fileTable = None, fileCount = 0, malloc_ok = mem, mallocs = 0, printed = []\<rparr>"

definition malloc :: "process \<Rightarrow> bool \<times> process" where
  "malloc st = (malloc_ok st (mallocs st), st\<lparr>mallocs := mallocs st + 1\<rparr>)"

definition emit :: "event \<Rightarrow> process \<Rightarrow> process" where
  "emit e st = st\<lparr>printed := printed st @ [e]\<rparr>"

definition difftime :: "time_t \<Rightarrow> time_t \<Rightarrow> int" where
  "difftime time1 time0 = time1 - time0"

text \<open>
  \<^verbatim>\<open>strncpy(dst, src, n)\<close> into a fresh array of \<open>n\<close> chars: the chars of \<open>src\<close> up to its
  terminator, at most \<open>n\<close> of them, the rest of the array filled with NUL. When \<open>src\<close> has \<open>n\<close>
  chars or more the array holds no terminator.
\<close>

definition strncpy :: "nat \<Rightarrow> string \<Rightarrow> cbuf" where
  "strncpy n src = \<lparr>content = take n (takeWhile (\<lambda>c. c \<noteq> NUL) src), capacity = n\<rparr>"

text \<open>The node that \<^verbatim>\<open>newNode\<close> fills in: a fresh array of \<open>MAX_PATH\<close> chars and the time.\<close>

definition file_record :: "string \<Rightarrow> time_t \<Rightarrow> File" where
  "file_record src mtime = \<lparr>filePath = strncpy MAX_PATH src, modified = mtime\<rparr>"

definition newNode :: "string option \<Rightarrow> time_t \<Rightarrow> process \<Rightarrow> File option \<times> process" where
  "newNode path mtime st =
     (case malloc st of
        (ok, st1) \<Rightarrow>
          if \<not> ok then (None, st1)
          else (case path of
                  None \<Rightarrow> (None, st1)
                | Some src \<Rightarrow>
                    (case malloc st1 of
                       (ok2, st2) \<Rightarrow>
                         if \<not> ok2 then (None, st2)
                         else (Some (file_record src mtime), st2))))"

text \<open>
  \<^verbatim>\<open>fileName\<close> returns a pointer: an object and an offset into it. The loop keeps in \<open>name\<close>
  the offset after the last \<^verbatim>\<open>'/'\<close> seen.
\<close>

function fileName_loop :: "cbuf \<Rightarrow> nat \<Rightarrow> nat \<Rightarrow> fault + nat" where
  "fileName_loop b copy name =
     (case rd b copy of
        Inl e \<Rightarrow> Inl e
      | Inr c \<Rightarrow>
          if c \<noteq> NUL
          then fileName_loop b (copy + 1) (if c = CHR ''/'' then copy + 1 else name)
          else Inr name)"
  by pat_completeness auto
termination
  by (relation "measure (\<lambda>(b, copy, name). capacity b - copy)")
    (auto simp: rd_def split: if_splits)

declare fileName_loop.simps [simp del]

definition fileName :: "(cbuf \<times> nat) option \<Rightarrow> fault + (cbuf \<times> nat)" where
  "fileName p =
     (case p of
        None \<Rightarrow> Inr (cstr ''NUll'', 0)
      | Some (b, k) \<Rightarrow>
          (case fileName_loop b k k of Inl e \<Rightarrow> Inl e | Inr name \<Rightarrow> Inr (b, name)))"

subsection \<open>duplicateTracker.c: the hash function\<close>

definition TBL_SIZE :: int where
  "TBL_SIZE = 512000"

definition FNV_PRIME :: long where
  "FNV_PRIME = 16777619"

definition FNV_OFFSET :: long where
  "FNV_OFFSET = 2166136261"

text \<open>The promotion of a \<^verbatim>\<open>char\<close> operand to \<^verbatim>\<open>long\<close>.\<close>

definition char_to_long :: "char \<Rightarrow> long" where
  "char_to_long c = scast (of_char c :: 8 word)"

text \<open>\<^verbatim>\<open>a % b\<close> on \<^verbatim>\<open>long\<close>: the remainder has the sign of \<open>a\<close>.\<close>

definition long_rem :: "long \<Rightarrow> long \<Rightarrow> long" where
  "long_rem a b = word_of_int (sint a smod sint b)"

text \<open>
  The \<^verbatim>\<open>do ... while\<close> loop of \<^verbatim>\<open>hash\<close>: the body reads \<^verbatim>\<open>*key\<close>, the condition advances
  \<open>key\<close> and reads the next char.
\<close>

function hash_loop :: "cbuf \<Rightarrow> nat \<Rightarrow> long \<Rightarrow> fault + long" where
  "hash_loop b key h =
     (case rd b key of
        Inl e \<Rightarrow> Inl e
      | Inr c \<Rightarrow>
          (let h' = (h XOR char_to_long c) * FNV_PRIME in
           case rd b (key + 1) of
             Inl e \<Rightarrow> Inl e
           | Inr c' \<Rightarrow> if c' \<noteq> NUL then hash_loop b (key + 1) h' else Inr h'))"
  by pat_completeness auto
termination
  by (relation "measure (\<lambda>(b, key, h). capacity b - key)")
    (auto simp: rd_def split: if_splits)

declare hash_loop.simps [simp del]

definition hash :: "cbuf \<Rightarrow> nat \<Rightarrow> fault + long" where
  "hash b key =
     (case hash_loop b key FNV_OFFSET of
        Inl e \<Rightarrow> Inl e
      | Inr h \<Rightarrow>
          (let h' = long_rem h (word_of_int TBL_SIZE)
           in Inr (if h' <s 0 then - h' else h')))"

text \<open>
  The FNV-1a value of a string as the specification words it: starting from the offset
  basis, each byte is XORed in and the result multiplied by the prime.
\<close>

definition fnv1a :: "string \<Rightarrow> long" where
  "fnv1a s = foldl (\<lambda>h c. (h XOR char_to_long c) * FNV_PRIME) FNV_OFFSET s"

subsection \<open>duplicateTracker.c: the file table\<close>

text \<open>The conversion of \<^verbatim>\<open>int index = hash(...)\<close>: the low 32 bits, read as signed.\<close>

definition long_to_int :: "long \<Rightarrow> int" where
  "long_to_int h = sint (ucast h :: 32 word)"

text \<open>\<^verbatim>\<open>fileTable[index]\<close>: the table has \<open>TBL_SIZE\<close> slots.\<close>

definition slot :: "(nat \<Rightarrow> chain) \<Rightarrow> int \<Rightarrow> fault + chain" where
  "slot tbl index =
     (if 0 \<le> index \<and> index < TBL_SIZE then Inr (tbl (nat index))
      else Inl (OutOfBounds index))"

text \<open>
  The \<^verbatim>\<open>for\<close> loop of \<^verbatim>\<open>insertNode\<close> and the two assignments after it. \<open>head\<close> is the node
  the loop stands on and the list is the chain from \<^verbatim>\<open>next\<close> on; the result is the chain
  from \<open>head\<close> on.
\<close>

fun insertNode_loop :: "File \<Rightarrow> File \<Rightarrow> chain \<Rightarrow> chain" where
  "insertNode_loop n head [] = [head, n]"
| "insertNode_loop n head (nxt # rest) =
     (if difftime (modified n) (modified nxt) \<le> 0
      then head # insertNode_loop n nxt rest
      else head # n # nxt # rest)"

definition insertNode :: "File \<Rightarrow> process \<Rightarrow> fault + (int \<times> process)" where
  "insertNode n st =
     (case fileName (Some (filePath n, 0)) of
        Inl e \<Rightarrow> Inl e
      | Inr (b, k) \<Rightarrow>
          (case hash b k of
             Inl e \<Rightarrow> Inl e
           | Inr h \<Rightarrow>
               (let index = long_to_int h in
                case fileTable st of
                  None \<Rightarrow> Inr (1, st)
                | Some tbl \<Rightarrow>
                    (let st1 = st\<lparr>fileCount := fileCount st + 1\<rparr> in
                     case slot tbl index of
                       Inl e \<Rightarrow> Inl e
                     | Inr [] \<Rightarrow>
                         Inr (0, st1\<lparr>fileTable := Some (tbl(nat index := [n]))\<rparr>)
                     | Inr (head # rest) \<Rightarrow>
                         if difftime (modified n) (modified head) > 0
                         then Inr (0, st1\<lparr>fileTable := Some (tbl(nat index := n # head # rest))\<rparr>)
                         else Inr (0, st1\<lparr>fileTable :=
                                Some (tbl(nat index := insertNode_loop n head rest))\<rparr>)))))"

text \<open>
  The two statements \<^verbatim>\<open>timeString = ctime(...)\<close> and
  \<^verbatim>\<open>timeString[strlen(timeString) - 1] = 0\<close>: \<^verbatim>\<open>strlen\<close> reads through the pointer that
  \<^verbatim>\<open>ctime\<close> returned, and the assignment cuts the last char of the text. On an empty text
  the index wraps around and the assignment is outside the text.
\<close>

definition timeString :: "string option \<Rightarrow> fault + string" where
  "timeString r =
     (case r of
        None \<Rightarrow> Inl NullDereference
      | Some text \<Rightarrow>
          (let s = takeWhile (\<lambda>c. c \<noteq> NUL) text
           in if s = [] then Inl (OutOfBounds (- 1)) else Inr (butlast s)))"

text \<open>The \<^verbatim>\<open>do ... while\<close> loop of \<^verbatim>\<open>printFileChain\<close>, one line for each node.\<close>

fun printFileLines ::
  "(time_t \<Rightarrow> string option) \<Rightarrow> int \<Rightarrow> chain \<Rightarrow> fault + event list" where
  "printFileLines ctime i [] = Inr []"
| "printFileLines ctime i (n # rest) =
     (case timeString (ctime (modified n)) of
        Inl e \<Rightarrow> Inl e
      | Inr ts \<Rightarrow>
          (case c_string (filePath n) 0 of
             Inl e \<Rightarrow> Inl e
           | Inr path \<Rightarrow>
               (case printFileLines ctime (i + 1) rest of
                  Inl e \<Rightarrow> Inl e
                | Inr ls \<Rightarrow> Inr (FileLine i ts path # ls))))"

definition printFileChain :: "(time_t \<Rightarrow> string option) \<Rightarrow> chain \<Rightarrow> fault + event list" where
  "printFileChain ctime c =
     (case c of
        [] \<Rightarrow> Inr []
      | n # rest \<Rightarrow>
          (case fileName (Some (filePath n, 0)) of
             Inl e \<Rightarrow> Inl e
           | Inr (b, k) \<Rightarrow>
               (case c_string b k of
                  Inl e \<Rightarrow> Inl e
                | Inr name \<Rightarrow>
                    (case printFileLines ctime 1 c of
                       Inl e \<Rightarrow> Inl e
                     | Inr ls \<Rightarrow> Inr (FileHeader (length c) name # ls @ [Newline])))))"

definition trackFile :: "string option \<Rightarrow> time_t \<Rightarrow> process \<Rightarrow> fault + (int \<times> process)" where
  "trackFile path mtime st =
     (case newNode path mtime st of
        (None, st1) \<Rightarrow> Inr (1, st1)
      | (Some n, st1) \<Rightarrow> insertNode n st1)"

text \<open>The table that \<^verbatim>\<open>calloc\<close> returns: every slot is \<^verbatim>\<open>NULL\<close>.\<close>

definition no_files :: "nat \<Rightarrow> chain" where
  "no_files i = []"

definition initializeFileTable :: "process \<Rightarrow> int \<times> process" where
  "initializeFileTable st =
     (case malloc st of
        (ok, st1) \<Rightarrow>
          if ok then (0, st1\<lparr>fileTable := Some no_files\<rparr>)
          else (1, st1\<lparr>fileTable := None\<rparr>))"

definition findFile ::
  "(time_t \<Rightarrow> string option) \<Rightarrow> string \<Rightarrow> process \<Rightarrow> fault + process" where
  "findFile ctime name st =
     (case fileTable st of
        None \<Rightarrow> Inr (emit Err_Uninitialized st)
      | Some tbl \<Rightarrow>
          (case hash (cstr name) 0 of
             Inl e \<Rightarrow> Inl e
           | Inr h \<Rightarrow>
               (case slot tbl (long_to_int h) of
                  Inl e \<Rightarrow> Inl e
                | Inr [] \<Rightarrow> Inr (emit NoMatch st)
                | Inr (n # rest) \<Rightarrow>
                    (case printFileChain ctime (n # rest) of
                       Inl e \<Rightarrow> Inl e
                     | Inr ls \<Rightarrow> Inr (st\<lparr>printed := printed st @ ls\<rparr>)))))"

definition getFileCount :: "process \<Rightarrow> int" where
  "getFileCount st = fileCount st"

text \<open>
  \<^verbatim>\<open>freeFileTable\<close> releases memory and sets \<^verbatim>\<open>fileTable\<close> to \<^verbatim>\<open>NULL\<close>; it assigns nothing
  else.
\<close>

definition freeFileTable :: "process \<Rightarrow> int \<times> process" where
  "freeFileTable st =
     (case fileTable st of
        None \<Rightarrow> (1, st)
      | Some tbl \<Rightarrow> (0, st\<lparr>fileTable := None\<rparr>))"

text \<open>A sequence of \<^verbatim>\<open>trackFile\<close> calls, with the value each call returns.\<close>

fun trackFiles :: "(string \<times> time_t) list \<Rightarrow> process \<Rightarrow> fault + (int list \<times> process)" where
  "trackFiles [] st = Inr ([], st)"
| "trackFiles ((path, mtime) # rest) st =
     (case trackFile (Some path) mtime st of
        Inl e \<Rightarrow> Inl e
      | Inr (rc, st1) \<Rightarrow>
          (case trackFiles rest st1 of
             Inl e \<Rightarrow> Inl e
           | Inr (rcs, st2) \<Rightarrow> Inr (rc # rcs, st2)))"

subsection \<open>Notions used to state the properties of the file table\<close>

text \<open>The string a \<open>src\<close> argument denotes: its chars up to the first NUL.\<close>

definition c_string_of :: "string \<Rightarrow> string" where
  "c_string_of src = takeWhile (\<lambda>c. c \<noteq> NUL) src"

text \<open>The base name of a path: the component after the last separator.\<close>

definition baseName :: "string \<Rightarrow> string" where
  "baseName path = rev (takeWhile (\<lambda>c. c \<noteq> CHR ''/'') (rev path))"

text \<open>The index that \<open>insertNode\<close> computes for the record of \<open>path\<close>.\<close>

definition bucket_index :: "string \<Rightarrow> fault + int" where
  "bucket_index path =
     (case fileName (Some (strncpy MAX_PATH path, 0)) of
        Inl e \<Rightarrow> Inl e
      | Inr (b, k) \<Rightarrow> (case hash b k of Inl e \<Rightarrow> Inl e | Inr h \<Rightarrow> Inr (long_to_int h)))"

text \<open>
  A path that \<open>trackFile\<close> can take: its string and terminator fit into \<open>MAX_PATH\<close> chars,
  and when its base name is empty there is one more char after the terminator, which
  \<open>hash\<close> reads.
\<close>

definition path_fits :: "string \<Rightarrow> bool" where
  "path_fits path =
     (let s = c_string_of path
      in length s < MAX_PATH \<and> (baseName s = [] \<longrightarrow> length s + 1 < MAX_PATH))"

text \<open>
  The position rule of \<open>insertNode\<close> in one expression: the new record goes behind the
  leading records that are not older than it.
\<close>

definition placed :: "File \<Rightarrow> chain \<Rightarrow> chain" where
  "placed n c =
     takeWhile (\<lambda>x. modified n \<le> modified x) c @ n #
     dropWhile (\<lambda>x. modified n \<le> modified x) c"

definition newest_first :: "chain \<Rightarrow> bool" where
  "newest_first c = sorted_wrt (\<lambda>x y. modified y \<le> modified x) c"

definition chains_sorted :: "process \<Rightarrow> bool" where
  "chains_sorted st =
     (case fileTable st of None \<Rightarrow> True | Some tbl \<Rightarrow> \<forall>i. newest_first (tbl i))"

definition chain_at :: "process \<Rightarrow> int \<Rightarrow> chain" where
  "chain_at st i = (case fileTable st of None \<Rightarrow> [] | Some tbl \<Rightarrow> tbl (nat i))"

text \<open>The distance of the first occurrence of \<open>x\<close> from the head of a chain.\<close>

definition position :: "File \<Rightarrow> chain \<Rightarrow> nat" where
  "position x c = length (takeWhile (\<lambda>y. y \<noteq> x) c)"

text \<open>An allocator that never fails, and the table after its first initialization.\<close>

definition plenty :: "nat \<Rightarrow> bool" where
  "plenty n = True"

definition fresh_table :: process where
  "fresh_table = snd (initializeFileTable (initial_process plenty))"

text \<open>
  A \<^verbatim>\<open>ctime\<close> for examples: it returns the null pointer for times far out of range and a
  text of the usual form, ended by a newline, for the others.
\<close>

definition example_ctime :: "time_t \<Rightarrow> string option" where
  "example_ctime t =
     (if - (2 ^ 55) < t \<and> t < 2 ^ 55 then Some (''Thu Jan  1 00:00:00 1970'' @ [CHR 0x0A])
      else None)"

subsection \<open>duplicateScanner.c: the traversal\<close>

text \<open>
  What the traversal asks of the operating system. \<open>stat\<close> is \<open>None\<close> where the call returns
  \<open>-1\<close>; of the result the code uses whether the mode is that of a directory, and the
  modification time. \<open>opendir\<close> is \<open>None\<close> where the directory cannot be opened, and
  otherwise the entries that successive \<^verbatim>\<open>readdir\<close> calls return. The file system does not
  change during a scan.
\<close>

record stat_t =
  st_isdir :: bool
  st_mtime :: time_t

record dirent =
  d_ino :: int
  d_name :: string

record filesystem =
  stat :: "string \<Rightarrow> stat_t option"
  opendir :: "string \<Rightarrow> dirent list option"

record DirEntry =
  entry_index :: int
  entry_fileName :: string

text \<open>
  \<^verbatim>\<open>readDirectoryEntry\<close> returns the next used entry of the stream, its name cut to
  \<open>NAME_MAX\<close> chars, and leaves the stream behind it.
\<close>

fun readDirectoryEntry :: "dirent list \<Rightarrow> (DirEntry \<times> dirent list) option" where
  "readDirectoryEntry [] = None"
| "readDirectoryEntry (entryBuffer # directory) =
     (if d_ino entryBuffer = 0 then readDirectoryEntry directory
      else Some (\<lparr>entry_index = d_ino entryBuffer,
                  entry_fileName = content (strncpy NAME_MAX (d_name entryBuffer))\<rparr>,
                 directory))"

text \<open>The path that \<^verbatim>\<open>sprintf(pathName, "%s/%s", directoryName, fileName)\<close> builds.\<close>

definition pathName :: "string \<Rightarrow> string \<Rightarrow> string" where
  "pathName directoryName name = directoryName @ ''/'' @ name"

text \<open>
  \<^verbatim>\<open>scanDirectory\<close> is only ever called with \<^verbatim>\<open>scanFile\<close> as its function argument, so the
  two are mutually recursive. The recursion ends because a path passed on is longer than
  the directory's and shorter than \<open>MAX_PATH\<close>.
\<close>

function scanFile :: "filesystem \<Rightarrow> string \<Rightarrow> process \<Rightarrow> fault + process"
  and scanDirectory :: "filesystem \<Rightarrow> string \<Rightarrow> process \<Rightarrow> fault + process"
  and scanDirectory_loop ::
    "filesystem \<Rightarrow> string \<Rightarrow> dirent list \<Rightarrow> process \<Rightarrow> fault + process"
where
  "scanFile fs path st =
     (case stat fs path of
        None \<Rightarrow> Inr (emit (Err_CantAccessFile path) st)
      | Some statBuffer \<Rightarrow>
          if st_isdir statBuffer
          then scanDirectory fs path (emit (Note_Scanning path) st)
          else (case trackFile (Some path) (st_mtime statBuffer) st of
                  Inl e \<Rightarrow> Inl e
                | Inr (rc, st1) \<Rightarrow> Inr (if rc \<noteq> 0 then emit Err_NotLogged st1 else st1)))"
| "scanDirectory fs directoryName st =
     (case opendir fs directoryName of
        None \<Rightarrow> Inr (emit (Err_CantAccessDirectory directoryName) st)
      | Some directory \<Rightarrow> scanDirectory_loop fs directoryName directory st)"
| "scanDirectory_loop fs directoryName directory st =
     (case readDirectoryEntry directory of
        None \<Rightarrow> Inr st
      | Some (entry, directory1) \<Rightarrow>
          if entry_fileName entry = ''.'' \<or> entry_fileName entry = ''..''
          then scanDirectory_loop fs directoryName directory1 st
          else if length directoryName + length (entry_fileName entry) + 2 > MAX_PATH
          then scanDirectory_loop fs directoryName directory1
                 (emit (Err_PathTooLong (entry_fileName entry)) st)
          else (case scanFile fs (pathName directoryName (entry_fileName entry)) st of
                  Inl e \<Rightarrow> Inl e
                | Inr st1 \<Rightarrow> scanDirectory_loop fs directoryName directory1 st1))"
  by pat_completeness auto
termination
proof -
  have shorter: "length d' < length d" if "readDirectoryEntry d = Some (e, d')" for d e d'
    using that by (induction d) (auto split: if_splits)
  show ?thesis
    by (relation "measures
      [\<lambda>x. case x of Inl (fs, path, st) \<Rightarrow> MAX_PATH - length path
          | Inr (Inl (fs, path, st)) \<Rightarrow> MAX_PATH - length path
          | Inr (Inr (fs, path, d, st)) \<Rightarrow> MAX_PATH - length path,
       \<lambda>x. case x of Inl (fs, path, st) \<Rightarrow> 2
          | Inr (Inl (fs, path, st)) \<Rightarrow> 1
          | Inr (Inr (fs, path, d, st)) \<Rightarrow> 0,
       \<lambda>x. case x of Inl (fs, path, st) \<Rightarrow> 0
          | Inr (Inl (fs, path, st)) \<Rightarrow> 0
          | Inr (Inr (fs, path, d, st)) \<Rightarrow> length d]")
      (auto simp: MAX_PATH_def pathName_def dest: shorter)
qed

declare scanFile.simps [simp del] scanDirectory.simps [simp del]
  scanDirectory_loop.simps [simp del]

subsection \<open>Notions used to state the properties of the traversal\<close>

text \<open>
  The names that the loop of \<open>scanDirectory\<close> builds a path for: those of the used entries
  of the stream, cut to \<open>NAME_MAX\<close> chars, without the entries for the directory itself
  and its parent.
\<close>

definition entry_names :: "dirent list \<Rightarrow> string list" where
  "entry_names directory =
     filter (\<lambda>name. name \<noteq> ''.'' \<and> name \<noteq> ''..'')
       (map (\<lambda>e. content (strncpy NAME_MAX (d_name e)))
          (filter (\<lambda>e. d_ino e \<noteq> 0) directory))"

text \<open>A path that, with its terminator, does not fit into an array of \<open>MAX_PATH\<close> chars.\<close>

definition too_long :: "string \<Rightarrow> bool" where
  "too_long path = (MAX_PATH < length path + 1)"

text \<open>
  The traversal of a directory as the specification words it: for every entry in turn, if
  the constructed path is too long, report it and skip the entry; otherwise scan the
  constructed path.
\<close>

fun visit_all :: "filesystem \<Rightarrow> string \<Rightarrow> string list \<Rightarrow> process \<Rightarrow> fault + process" where
  "visit_all fs dir [] st = Inr st"
| "visit_all fs dir (name # names) st =
     (if too_long (pathName dir name)
      then visit_all fs dir names (emit (Err_PathTooLong name) st)
      else (case scanFile fs (pathName dir name) st of
              Inl e \<Rightarrow> Inl e
            | Inr st1 \<Rightarrow> visit_all fs dir names st1))"

text \<open>Whether the entry \<open>name\<close> of \<open>dir\<close> is passed to \<open>scanFile\<close> and \<^verbatim>\<open>stat\<close> succeeds on it.\<close>

definition registers :: "filesystem \<Rightarrow> string \<Rightarrow> string \<Rightarrow> bool" where
  "registers fs dir name =
     (\<not> too_long (pathName dir name) \<and> stat fs (pathName dir name) \<noteq> None)"

text \<open>The error message expected for the entry \<open>name\<close> of \<open>dir\<close>, if any.\<close>

definition reports :: "filesystem \<Rightarrow> string \<Rightarrow> string \<Rightarrow> event list" where
  "reports fs dir name =
     (if too_long (pathName dir name) then [Err_PathTooLong name]
      else if stat fs (pathName dir name) = None then [Err_CantAccessFile (pathName dir name)]
      else [])"

text \<open>
  A file system for examples: the directory \<^verbatim>\<open>/d\<close> holds the regular files \<^verbatim>\<open>a.txt\<close> and
  \<^verbatim>\<open>b\<close> and the entry \<^verbatim>\<open>locked\<close>, on which \<^verbatim>\<open>stat\<close> fails.
\<close>

definition example_stat :: "string \<Rightarrow> stat_t option" where
  "example_stat path =
     (if path = ''/d'' then Some \<lparr>st_isdir = True, st_mtime = 10\<rparr>
      else if path = ''/d/a.txt'' then Some \<lparr>st_isdir = False, st_mtime = 100\<rparr>
      else if path = ''/d/b'' then Some \<lparr>st_isdir = False, st_mtime = 50\<rparr>
      else None)"

definition example_opendir :: "string \<Rightarrow> dirent list option" where
  "example_opendir path =
     (if path = ''/d''
      then Some [\<lparr>d_ino = 2, d_name = ''.''\<rparr>, \<lparr>d_ino = 1, d_name = ''..''\<rparr>,
                 \<lparr>d_ino = 11, d_name = ''a.txt''\<rparr>, \<lparr>d_ino = 12, d_name = ''locked''\<rparr>,
                 \<lparr>d_ino = 13, d_name = ''b''\<rparr>]
      else None)"

definition example_fs :: filesystem where
  "example_fs = \<lparr>stat = example_stat, opendir = example_opendir\<rparr>"

text \<open>A directory name of 4090 chars, for examples of paths that are too long.\<close>

definition long_directory :: string where
  "long_directory = replicate 4090 CHR ''d''"

section \<open>Properties of the hash function\<close>


lemma hash_loop_string_at:
  "string_at b k (c # s) \<Longrightarrow>
   hash_loop b k h = Inr (foldl (\<lambda>h c. (h XOR char_to_long c) * FNV_PRIME) h (c # s))"
proof (induction s arbitrary: k h c)
  case Nil
  then show ?case by (simp add: hash_loop.simps)
next
  case (Cons d s)
  from Cons.prems have rest: "string_at b (k + 1) (d # s)" and c: "rd b k = Inr c"
    and d: "rd b (k + 1) = Inr d" "d \<noteq> NUL"
    by simp_all
  show ?case
    using Cons.IH [OF rest] c d by (subst hash_loop.simps) simp
qed

lemma sint_long_rem_TBL_SIZE:
  "sint (long_rem h (word_of_int TBL_SIZE)) = sint h smod TBL_SIZE"
proof -
  have t: "sint (word_of_int TBL_SIZE :: long) = TBL_SIZE"
    by (simp add: TBL_SIZE_def)
  have "sint h smod TBL_SIZE \<in> {- \<bar>TBL_SIZE\<bar> + 1..\<bar>TBL_SIZE\<bar> - 1}"
    by (rule smod_int_range) (simp add: TBL_SIZE_def)
  then have "- (2 ^ 63) \<le> sint h smod TBL_SIZE" "sint h smod TBL_SIZE < 2 ^ 63"
    by (simp_all add: TBL_SIZE_def)
  then show ?thesis
    unfolding long_rem_def t
    by (simp add: sint_sbintrunc' signed_take_bit_int_eq_self)
qed

lemma smod_TBL_SIZE_range:
  "- TBL_SIZE < k smod TBL_SIZE" "k smod TBL_SIZE < TBL_SIZE"
  using smod_int_range [of TBL_SIZE k] by (simp_all add: TBL_SIZE_def)

lemma hash_fold:
  fixes h :: long
  defines "r \<equiv> long_rem h (word_of_int TBL_SIZE)"
  shows "sint (if r <s 0 then - r else r) = \<bar>sint h smod TBL_SIZE\<bar>"
proof -
  have r: "sint r = sint h smod TBL_SIZE"
    unfolding r_def by (rule sint_long_rem_TBL_SIZE)
  have lo: "- TBL_SIZE < sint r" and hi: "sint r < TBL_SIZE"
    unfolding r by (rule smod_TBL_SIZE_range)+
  have "sint (- r) = - sint r"
    using lo hi by (simp add: sint_word_minus TBL_SIZE_def signed_take_bit_int_eq_self)
  then show ?thesis
    using r by (simp add: word_sless_alt abs_if)
qed

lemma long_to_int_small:
  "0 \<le> sint h \<Longrightarrow> sint h < TBL_SIZE \<Longrightarrow> long_to_int h = sint h"
proof -
  assume a: "0 \<le> sint h" "sint h < TBL_SIZE"
  then have u: "uint h = sint h"
    by (simp add: uint_sint take_bit_int_eq_self TBL_SIZE_def)
  have "sint (ucast h :: 32 word) = signed_take_bit 31 (uint h)"
    by (simp add: signed_ucast_eq)
  also have "\<dots> = sint h"
    unfolding u using a by (simp add: signed_take_bit_int_eq_self TBL_SIZE_def)
  finally show ?thesis by (simp add: long_to_int_def)
qed

lemma hash_string_at:
  assumes "s \<noteq> []" and "string_at b k s"
  shows "\<exists>h. hash b k = Inr h \<and> sint h = \<bar>sint (fnv1a s) smod TBL_SIZE\<bar>"
proof -
  from assms obtain c t where s: "s = c # t" by (cases s) auto
  have "hash_loop b k FNV_OFFSET = Inr (fnv1a s)"
    using hash_loop_string_at [of b k c t FNV_OFFSET] assms(2)
    unfolding s fnv1a_def by simp
  then show ?thesis
    by (simp add: hash_def Let_def hash_fold del: foldl_Cons)
qed

lemma string_at_inside:
  "NUL \<notin> set s \<Longrightarrow> length p + length s < cap \<Longrightarrow>
   string_at \<lparr>content = p @ s, capacity = cap\<rparr> (length p) s"
proof (induction s arbitrary: p)
  case Nil
  then show ?case by (simp add: rd_def)
next
  case (Cons c s)
  have "string_at \<lparr>content = (p @ [c]) @ s, capacity = cap\<rparr> (length (p @ [c])) s"
    using Cons.prems by (intro Cons.IH) simp_all
  then show ?case
    using Cons.prems by (auto simp: rd_def)
qed

lemma string_at_cstr: "NUL \<notin> set s \<Longrightarrow> string_at (cstr s) 0 s"
  using string_at_inside [of s "[]" "length s + 1"] by (simp add: cstr_def)

text \<open>
  Claim C4. A non-empty string \<open>s\<close> hashes to the same value wherever it is stored: in any
  two objects \<open>b\<close>, \<open>b'\<close> that hold \<open>s\<close> with its terminator at offsets \<open>k\<close>, \<open>k'\<close>, \<open>hash\<close>
  returns the same result. The result is a bucket index in \<open>[0, TBL_SIZE)\<close>, with
  \<open>TBL_SIZE = 512000\<close>: the absolute value of the truncated remainder of the FNV-1a value
  of \<open>s\<close>.
\<close>

theorem hash_deterministic_in_range:
  assumes "s \<noteq> []" and "string_at b k s" and "string_at b' k' s"
  shows "hash b k = hash b' k' \<and>
         (\<exists>h. hash b k = Inr h \<and> 0 \<le> long_to_int h \<and> long_to_int h < TBL_SIZE \<and>
               long_to_int h = \<bar>sint (fnv1a s) smod TBL_SIZE\<bar>) \<and>
         TBL_SIZE = 512000"
proof -
  obtain h where h: "hash b k = Inr h" "sint h = \<bar>sint (fnv1a s) smod TBL_SIZE\<bar>"
    using hash_string_at [OF assms(1,2)] by blast
  obtain h' where h': "hash b' k' = Inr h'" "sint h' = \<bar>sint (fnv1a s) smod TBL_SIZE\<bar>"
    using hash_string_at [OF assms(1,3)] by blast
  have eq: "h = h'"
    using h(2) h'(2) signed_word_eqI [of h h', where ?'a = int] by simp
  have range: "0 \<le> sint h" "sint h < TBL_SIZE"
    using h(2) smod_TBL_SIZE_range [of "sint (fnv1a s)"] by simp_all
  show ?thesis
    using h h' eq range by (simp add: long_to_int_small) (simp add: TBL_SIZE_def)
qed

theorem hash_deterministic_in_range_witness:
  "''a.txt'' \<noteq> [] \<and> string_at (cstr ''a.txt'') 0 ''a.txt'' \<and>
   string_at (strncpy MAX_PATH ''/d/a.txt'') 3 ''a.txt'' \<and>
   hash (cstr ''a.txt'') 0 = hash (strncpy MAX_PATH ''/d/a.txt'') 3 \<and>
   hash (cstr ''a.txt'') 0 = Inr 53766 \<and>
   (\<exists>h. hash (cstr ''a.txt'') 0 = Inr h \<and> 0 \<le> long_to_int h \<and> long_to_int h < TBL_SIZE \<and>
        long_to_int h = \<bar>sint (fnv1a ''a.txt'') smod TBL_SIZE\<bar>)"
proof -
  have a: "''a.txt'' \<noteq> []" by simp
  have b: "string_at (cstr ''a.txt'') 0 ''a.txt''"
    by (simp add: cstr_def rd_def NUL_def)
  have c: "string_at (strncpy MAX_PATH ''/d/a.txt'') 3 ''a.txt''"
    by (simp add: strncpy_def MAX_PATH_def rd_def NUL_def)
  have d: "hash (cstr ''a.txt'') 0 = Inr 53766"
    by (simp add: hash_def hash_loop.simps cstr_def rd_def NUL_def char_to_long_def
        FNV_OFFSET_def FNV_PRIME_def long_rem_def TBL_SIZE_def word_sless_alt)
  show ?thesis
    using hash_deterministic_in_range [OF a b c] a b c d by blast
qed

text \<open>
  Claim C10. The loop of \<open>hash\<close> reads a char, then advances and reads the next one before
  it tests for the terminator. On the object of a string without NUL, all reads are inside
  the object exactly when the string is not empty; on the empty string, whose object is the
  terminator alone, \<open>hash\<close> reads offset 1, one past the end.
\<close>

theorem hash_reads_past_empty_key:
  assumes "NUL \<notin> set s"
  shows "((\<exists>h. hash (cstr s) 0 = Inr h) \<longleftrightarrow> s \<noteq> []) \<and>
         hash (cstr []) 0 = Inl (OutOfBounds 1)"
proof -
  have empty: "hash (cstr []) 0 = Inl (OutOfBounds 1)"
    by (simp add: hash_def cstr_def rd_def hash_loop.simps)
  have "\<exists>h. hash (cstr s) 0 = Inr h" if "s \<noteq> []"
    using hash_string_at [OF that string_at_cstr [OF assms]] by blast
  then show ?thesis
    using empty by auto
qed

theorem hash_reads_past_empty_key_witness:
  "NUL \<notin> set ''a'' \<and> ((\<exists>h. hash (cstr ''a'') 0 = Inr h) \<longleftrightarrow> ''a'' \<noteq> []) \<and>
   hash (cstr []) 0 = Inl (OutOfBounds 1)"
proof -
  have a: "NUL \<notin> set ''a''" by (simp add: NUL_def)
  show ?thesis
    using hash_reads_past_empty_key [OF a] a by simp
qed

section \<open>Properties of the file table\<close>

lemma file_record_sel [simp]:
  "filePath (file_record src mtime) = strncpy MAX_PATH src"
  "modified (file_record src mtime) = mtime"
  by (simp_all add: file_record_def)


lemma insertNode_loop_placed:
  "difftime (modified n) (modified head) \<le> 0 \<Longrightarrow> insertNode_loop n head rest = placed n (head # rest)"
proof (induction rest arbitrary: head)
  case Nil
  then show ?case by (simp add: placed_def difftime_def)
next
  case (Cons nxt rest)
  show ?case
  proof (cases "difftime (modified n) (modified nxt) \<le> 0")
    case True
    from Cons.IH [OF True] Cons.prems True show ?thesis
      by (simp add: placed_def difftime_def)
  next
    case False
    with Cons.prems show ?thesis
      by (simp add: placed_def difftime_def)
  qed
qed

lemma hash_sint_range:
  assumes "hash b k = Inr h"
  shows "0 \<le> sint h \<and> sint h < TBL_SIZE"
proof -
  from assms obtain g where g: "hash_loop b k FNV_OFFSET = Inr g"
    and hg: "h = (if long_rem g (word_of_int TBL_SIZE) <s 0
                  then - long_rem g (word_of_int TBL_SIZE)
                  else long_rem g (word_of_int TBL_SIZE))"
    by (auto simp: hash_def Let_def split: sum.splits)
  have h: "sint h = \<bar>sint g smod TBL_SIZE\<bar>"
    unfolding hg by (rule hash_fold)
  show ?thesis
    using h smod_TBL_SIZE_range [of "sint g"] by simp
qed

lemma hash_range:
  assumes "hash b k = Inr h"
  shows "0 \<le> long_to_int h \<and> long_to_int h < TBL_SIZE"
  using hash_sint_range [OF assms] by (simp add: long_to_int_small)

lemma insertNode_cases:
  assumes "insertNode n st = Inr (rc, st')"
  shows "(fileTable st = None \<and> rc = 1 \<and> st' = st) \<or>
         (\<exists>tbl b k h. fileTable st = Some tbl \<and> rc = 0 \<and>
            fileName (Some (filePath n, 0)) = Inr (b, k) \<and> hash b k = Inr h \<and>
            st' = st\<lparr>fileCount := fileCount st + 1,
                     fileTable := Some (tbl(nat (long_to_int h) :=
                        placed n (tbl (nat (long_to_int h)))))\<rparr>)"
proof -
  from assms obtain b k h where f: "fileName (Some (filePath n, 0)) = Inr (b, k)"
    and h: "hash b k = Inr h"
    by (auto simp: insertNode_def split: sum.splits)
  note r = hash_range [OF h]
  show ?thesis
  proof (cases "fileTable st")
    case None
    with assms f h show ?thesis by (simp add: insertNode_def)
  next
    case (Some tbl)
    show ?thesis
    proof (cases "tbl (nat (long_to_int h))")
      case Nil
      with assms f h r Some show ?thesis
        by (simp add: insertNode_def slot_def placed_def)
    next
      case (Cons head rest)
      show ?thesis
      proof (cases "difftime (modified n) (modified head) > 0")
        case True
        with assms f h r Some Cons show ?thesis
          by (simp add: insertNode_def slot_def placed_def difftime_def)
      next
        case False
        then have "insertNode_loop n head rest = placed n (head # rest)"
          by (intro insertNode_loop_placed) simp
        with False assms f h r Some Cons show ?thesis
          by (simp add: insertNode_def slot_def)
      qed
    qed
  qed
qed

lemma newNode_cases:
  assumes "newNode path mtime st = (r, st1)"
  shows "fileTable st1 = fileTable st \<and> fileCount st1 = fileCount st \<and>
         printed st1 = printed st \<and> malloc_ok st1 = malloc_ok st \<and>
         (case r of None \<Rightarrow> True
          | Some n \<Rightarrow> \<exists>src. path = Some src \<and>
              n = file_record src mtime)"
  using assms
  by (auto simp: newNode_def malloc_def split: option.splits if_splits)

lemma trackFile_cases:
  assumes "trackFile (Some path) mtime st = Inr (rc, st')"
  shows "(rc = 1 \<and> fileTable st' = fileTable st \<and> fileCount st' = fileCount st \<and>
          printed st' = printed st) \<or>
         (\<exists>tbl i. rc = 0 \<and> fileTable st = Some tbl \<and> bucket_index path = Inr i \<and>
            0 \<le> i \<and> i < TBL_SIZE \<and> fileCount st' = fileCount st + 1 \<and>
            printed st' = printed st \<and>
            fileTable st' = Some (tbl(nat i :=
              placed (file_record path mtime) (tbl (nat i)))))"
proof -
  obtain r st1 where nn: "newNode (Some path) mtime st = (r, st1)"
    by (cases "newNode (Some path) mtime st")
  note nc = newNode_cases [OF nn]
  show ?thesis
  proof (cases r)
    case None
    with assms nn nc show ?thesis by (auto simp: trackFile_def)
  next
    case (Some n)
    with nc have n: "n = file_record path mtime" by simp
    from assms nn Some have ins: "insertNode n st1 = Inr (rc, st')"
      by (simp add: trackFile_def)
    from insertNode_cases [OF ins] show ?thesis
    proof
      assume "fileTable st1 = None \<and> rc = 1 \<and> st' = st1"
      with nc show ?thesis by simp
    next
      assume "\<exists>tbl b k h. fileTable st1 = Some tbl \<and> rc = 0 \<and>
            fileName (Some (filePath n, 0)) = Inr (b, k) \<and> hash b k = Inr h \<and>
            st' = st1\<lparr>fileCount := fileCount st1 + 1,
                     fileTable := Some (tbl(nat (long_to_int h) :=
                        placed n (tbl (nat (long_to_int h)))))\<rparr>"
      then obtain tbl b k h where *: "fileTable st1 = Some tbl" "rc = 0"
        "fileName (Some (filePath n, 0)) = Inr (b, k)" "hash b k = Inr h"
        "st' = st1\<lparr>fileCount := fileCount st1 + 1,
                     fileTable := Some (tbl(nat (long_to_int h) :=
                        placed n (tbl (nat (long_to_int h)))))\<rparr>"
        by blast
      have "bucket_index path = Inr (long_to_int h)"
        using *(3,4) n by (simp add: bucket_index_def)
      with * nc n hash_range [OF *(4)] show ?thesis by simp
    qed
  qed
qed



lemma newest_first_placed:
  assumes "newest_first c"
  shows "newest_first (placed n c)"
proof -
  let ?P = "\<lambda>x. modified n \<le> modified x"
  have c: "c = takeWhile ?P c @ dropWhile ?P c" by simp
  have tk: "\<forall>x\<in>set (takeWhile ?P c). modified n \<le> modified x"
    by (auto dest: set_takeWhileD)
  have dr: "\<forall>y\<in>set (dropWhile ?P c). modified y \<le> modified n"
  proof (cases "dropWhile ?P c")
    case Nil
    show ?thesis unfolding Nil by simp
  next
    case (Cons d ds)
    then have d: "\<not> ?P d" by (metis hd_dropWhile list.sel(1) list.distinct(1))
    have "sorted_wrt (\<lambda>x y. modified y \<le> modified x) (dropWhile ?P c)"
      using assms c by (metis newest_first_def sorted_wrt_append)
    then have "\<forall>y\<in>set ds. modified y \<le> modified d"
      unfolding Cons by simp
    with d show ?thesis unfolding Cons by auto
  qed
  have "sorted_wrt (\<lambda>x y. modified y \<le> modified x) (takeWhile ?P c)"
    and "sorted_wrt (\<lambda>x y. modified y \<le> modified x) (dropWhile ?P c)"
    using assms c by (metis newest_first_def sorted_wrt_append)+
  then show ?thesis
    unfolding newest_first_def placed_def
    using tk dr by (fastforce simp: sorted_wrt_append)
qed

lemma trackFile_chains_sorted:
  assumes "chains_sorted st" and "trackFile (Some path) mtime st = Inr (rc, st')"
  shows "chains_sorted st'"
  using trackFile_cases [OF assms(2)] assms(1)
  by (auto simp: chains_sorted_def newest_first_placed)

lemma trackFiles_chains_sorted:
  "chains_sorted st \<Longrightarrow> trackFiles ops st = Inr (rcs, st') \<Longrightarrow> chains_sorted st'"
proof (induction ops arbitrary: st rcs)
  case Nil
  then show ?case by simp
next
  case (Cons op ops)
  obtain path mtime where op: "op = (path, mtime)" by (cases op)
  from Cons.prems(2) obtain rc st1 rcs1 where
    1: "trackFile (Some path) mtime st = Inr (rc, st1)" and
    2: "trackFiles ops st1 = Inr (rcs1, st')"
    unfolding op by (auto split: sum.splits)
  from trackFile_chains_sorted [OF Cons.prems(1) 1] 2 show ?case
    by (rule Cons.IH)
qed

lemma placed_newer_after_older:
  assumes "modified a < modified b"
  shows "\<exists>xs ys zs. c = xs @ ys @ zs \<and> placed b (placed a c) = xs @ b # ys @ a # zs"
proof -
  let ?A = "\<lambda>x. modified a \<le> modified x" and ?B = "\<lambda>x. modified b \<le> modified x"
  let ?T = "takeWhile ?A c" and ?D = "dropWhile ?A c"
  have nb: "\<not> ?B a" using assms by simp
  have tk: "takeWhile ?B (?T @ a # ?D) = takeWhile ?B ?T"
    and dr: "dropWhile ?B (?T @ a # ?D) = dropWhile ?B ?T @ a # ?D"
  proof -
    show "takeWhile ?B (?T @ a # ?D) = takeWhile ?B ?T"
    proof (cases "\<forall>x\<in>set ?T. ?B x")
      case True
      have e: "takeWhile ?B ?T = ?T"
        using True by (simp only: takeWhile_eq_all_conv)
      have "takeWhile ?B (?T @ a # ?D) = ?T @ takeWhile ?B (a # ?D)"
        using True by (intro takeWhile_append2) blast
      also have "takeWhile ?B (a # ?D) = []"
        using nb by simp
      finally show ?thesis unfolding e by simp
    next
      case False
      then obtain x where "x \<in> set ?T" "\<not> ?B x" by blast
      then show ?thesis by (rule takeWhile_append1)
    qed
    show "dropWhile ?B (?T @ a # ?D) = dropWhile ?B ?T @ a # ?D"
    proof (cases "\<forall>x\<in>set ?T. ?B x")
      case True
      then have "dropWhile ?B (?T @ a # ?D) = dropWhile ?B (a # ?D)"
        by (intro dropWhile_append2) blast
      moreover have "dropWhile ?B ?T = []"
        using True by simp
      ultimately show ?thesis using nb by simp
    next
      case False
      then obtain x where "x \<in> set ?T" "\<not> ?B x" by blast
      then show ?thesis by (rule dropWhile_append1)
    qed
  qed
  have "placed b (placed a c) = takeWhile ?B ?T @ b # dropWhile ?B ?T @ a # ?D"
    by (simp add: placed_def tk dr)
  moreover have "c = takeWhile ?B ?T @ dropWhile ?B ?T @ ?D"
    by (metis append.assoc takeWhile_dropWhile_id)
  ultimately show ?thesis by blast
qed

lemma placed_older_after_newer:
  assumes "modified a < modified b"
  shows "\<exists>xs ys zs. c = xs @ ys @ zs \<and> placed a (placed b c) = xs @ b # ys @ a # zs"
proof -
  let ?A = "\<lambda>x. modified a \<le> modified x" and ?B = "\<lambda>x. modified b \<le> modified x"
  let ?T = "takeWhile ?B c" and ?D = "dropWhile ?B c"
  have all: "\<forall>x\<in>set ?T. ?A x"
    using assms by (auto dest!: set_takeWhileD)
  have ab: "?A b" using assms by simp
  have tk: "takeWhile ?A (?T @ b # ?D) = ?T @ b # takeWhile ?A ?D"
    using all ab by (simp add: takeWhile_append)
  have dr: "dropWhile ?A (?T @ b # ?D) = dropWhile ?A ?D"
    using all ab by (simp add: dropWhile_append)
  have "placed a (placed b c) = ?T @ b # takeWhile ?A ?D @ a # dropWhile ?A ?D"
    by (simp add: placed_def tk dr)
  moreover have "c = ?T @ takeWhile ?A ?D @ dropWhile ?A ?D"
    by simp
  ultimately show ?thesis by blast
qed



lemma baseName_no_slash: "CHR ''/'' \<notin> set m \<Longrightarrow> baseName m = m"
proof -
  assume "CHR ''/'' \<notin> set m"
  then have tw: "takeWhile (\<lambda>c. c \<noteq> CHR ''/'') (rev m) = rev m"
    by (simp only: takeWhile_eq_all_conv) auto
  show ?thesis unfolding baseName_def tw by simp
qed

lemma baseName_after_slash: "baseName (x @ CHR ''/'' # y) = baseName y"
proof -
  let ?P = "\<lambda>c. c \<noteq> CHR ''/''"
  have "takeWhile ?P (rev y @ CHR ''/'' # rev x) = takeWhile ?P (rev y)"
  proof (cases "\<forall>c\<in>set (rev y). ?P c")
    case True
    have e: "takeWhile ?P (rev y) = rev y"
      using True by (simp only: takeWhile_eq_all_conv)
    have "takeWhile ?P (rev y @ CHR ''/'' # rev x) = rev y @ takeWhile ?P (CHR ''/'' # rev x)"
      using True by (intro takeWhile_append2) blast
    then show ?thesis unfolding e by simp
  next
    case False
    then obtain c where "c \<in> set (rev y)" "\<not> ?P c" by blast
    then show ?thesis by (rule takeWhile_append1)
  qed
  then show ?thesis by (simp add: baseName_def)
qed

lemma string_at_tail: "string_at b k (m @ s) \<Longrightarrow> string_at b (k + length m) s"
proof (induction m arbitrary: k)
  case Nil
  then show ?case by simp
next
  case (Cons c m)
  then have "string_at b (k + 1) (m @ s)" by simp
  from Cons.IH [OF this] show ?case by simp
qed

lemma fileName_loop_string_at:
  assumes "string_at b name (m @ s)" and "copy = name + length m" and "CHR ''/'' \<notin> set m"
  shows "\<exists>name'. fileName_loop b copy name = Inr name' \<and>
           string_at b name' (baseName (m @ s)) \<and>
           name' + length (baseName (m @ s)) = copy + length s"
  using assms
proof (induction s arbitrary: name m copy)
  case Nil
  from string_at_tail [OF Nil(1)] Nil(2) have "rd b copy = Inr NUL" by simp
  with Nil show ?case
    by (subst fileName_loop.simps) (simp add: baseName_no_slash)
next
  case (Cons c s)
  from string_at_tail [OF Cons.prems(1)] Cons.prems(2)
  have c: "c \<noteq> NUL" "rd b copy = Inr c" and rest: "string_at b (copy + 1) s"
    by simp_all
  show ?case
  proof (cases "c = CHR ''/''")
    case True
    have "\<exists>name'. fileName_loop b (copy + 1) (copy + 1) = Inr name' \<and>
           string_at b name' (baseName ([] @ s)) \<and>
           name' + length (baseName ([] @ s)) = (copy + 1) + length s"
      using rest by (intro Cons.IH) simp_all
    then show ?thesis
      using c True by (subst fileName_loop.simps) (simp add: baseName_after_slash)
  next
    case False
    have "\<exists>name'. fileName_loop b (copy + 1) name = Inr name' \<and>
           string_at b name' (baseName ((m @ [c]) @ s)) \<and>
           name' + length (baseName ((m @ [c]) @ s)) = (copy + 1) + length s"
      using Cons.prems False by (intro Cons.IH) simp_all
    then show ?thesis
      using c False by (subst fileName_loop.simps) simp
  qed
qed

lemma fileName_strncpy:
  assumes "length (c_string_of path) < MAX_PATH"
  shows "\<exists>k. fileName (Some (strncpy MAX_PATH path, 0)) = Inr (strncpy MAX_PATH path, k) \<and>
           string_at (strncpy MAX_PATH path) k (baseName (c_string_of path)) \<and>
           k + length (baseName (c_string_of path)) = length (c_string_of path)"
proof -
  let ?s = "c_string_of path"
  have nul: "NUL \<notin> set ?s"
    by (auto simp: c_string_of_def dest: set_takeWhileD)
  have b: "strncpy MAX_PATH path = \<lparr>content = [] @ ?s, capacity = MAX_PATH\<rparr>"
    using assms by (simp add: strncpy_def c_string_of_def)
  have "string_at (strncpy MAX_PATH path) 0 ([] @ ?s)"
    unfolding b using string_at_inside [OF nul, of "[]" MAX_PATH] assms by simp
  from fileName_loop_string_at [OF this, of 0] show ?thesis
    by (auto simp: fileName_def)
qed

lemma hash_empty_key:
  assumes "rd b k = Inr NUL" and "rd b (k + 1) = Inr NUL"
  shows "\<exists>h. hash b k = Inr h"
  using assms by (simp add: hash_def Let_def hash_loop.simps)

lemma bucket_index_total:
  assumes "path_fits path"
  shows "\<exists>i. bucket_index path = Inr i \<and> 0 \<le> i \<and> i < TBL_SIZE \<and>
           (baseName (c_string_of path) \<noteq> [] \<longrightarrow>
              i = \<bar>sint (fnv1a (baseName (c_string_of path))) smod TBL_SIZE\<bar>)"
proof -
  let ?s = "c_string_of path" and ?b = "strncpy MAX_PATH path"
  from assms have len: "length ?s < MAX_PATH"
    and emp: "baseName ?s = [] \<Longrightarrow> length ?s + 1 < MAX_PATH"
    by (simp_all add: path_fits_def Let_def)
  from fileName_strncpy [OF len] obtain k where
    k: "fileName (Some (?b, 0)) = Inr (?b, k)" "string_at ?b k (baseName ?s)"
       "k + length (baseName ?s) = length ?s"
    by blast
  have "\<exists>h. hash ?b k = Inr h \<and>
          (baseName ?s \<noteq> [] \<longrightarrow> sint h = \<bar>sint (fnv1a (baseName ?s)) smod TBL_SIZE\<bar>)"
  proof (cases "baseName ?s = []")
    case True
    with k have "k = length ?s" and "rd ?b k = Inr NUL" by simp_all
    moreover have "rd ?b (length ?s + 1) = Inr NUL"
      using emp [OF True] by (simp add: rd_def strncpy_def c_string_of_def)
    ultimately show ?thesis
      using hash_empty_key [of ?b k] True by simp
  next
    case False
    from hash_string_at [OF False k(2)] False show ?thesis by blast
  qed
  then obtain h where h: "hash ?b k = Inr h"
    "baseName ?s \<noteq> [] \<longrightarrow> sint h = \<bar>sint (fnv1a (baseName ?s)) smod TBL_SIZE\<bar>"
    by blast
  have r: "0 \<le> long_to_int h \<and> long_to_int h < TBL_SIZE"
    by (rule hash_range [OF h(1)])
  have "long_to_int h = sint h"
    using hash_sint_range [OF h(1)] by (simp add: long_to_int_small)
  with h r k(1) show ?thesis
    by (simp add: bucket_index_def)
qed



lemma insertNode_total:
  assumes "fileName (Some (filePath n, 0)) = Inr (b, k)" and "hash b k = Inr h"
  shows "\<exists>rc st'. insertNode n st = Inr (rc, st')"
proof -
  note r = hash_range [OF assms(2)]
  show ?thesis
  proof (cases "fileTable st")
    case None
    with assms show ?thesis by (simp add: insertNode_def)
  next
    case (Some tbl)
    with assms r show ?thesis
      by (cases "tbl (nat (long_to_int h))") (simp_all add: insertNode_def slot_def Let_def)
  qed
qed

lemma bucket_index_Inr:
  assumes "bucket_index path = Inr i"
  shows "\<exists>b k h. fileName (Some (strncpy MAX_PATH path, 0)) = Inr (b, k) \<and>
           hash b k = Inr h \<and> i = long_to_int h"
  using assms by (auto simp: bucket_index_def split: sum.splits)

lemma trackFile_total:
  assumes "path_fits path"
  shows "\<exists>rc st'. trackFile (Some path) mtime st = Inr (rc, st')"
proof -
  obtain r st1 where nn: "newNode (Some path) mtime st = (r, st1)"
    by (cases "newNode (Some path) mtime st")
  show ?thesis
  proof (cases r)
    case None
    with nn show ?thesis by (simp add: trackFile_def)
  next
    case (Some n)
    with newNode_cases [OF nn]
    have n: "n = file_record path mtime" by simp
    from bucket_index_total [OF assms] obtain i where "bucket_index path = Inr i"
      by blast
    from bucket_index_Inr [OF this] obtain b k h where
      "fileName (Some (filePath n, 0)) = Inr (b, k)" "hash b k = Inr h"
      unfolding n by auto
    from insertNode_total [OF this] nn Some show ?thesis
      by (simp add: trackFile_def)
  qed
qed

lemma trackFile_succeeds:
  assumes "path_fits path" and "fileTable st = Some tbl"
    and "malloc_ok st (mallocs st)" and "malloc_ok st (mallocs st + 1)"
  shows "\<exists>st'. trackFile (Some path) mtime st = Inr (0, st')"
proof -
  let ?n = "file_record path mtime"
  let ?st1 = "st\<lparr>mallocs := mallocs st + 1 + 1\<rparr>"
  have nn: "newNode (Some path) mtime st = (Some ?n, ?st1)"
    using assms(3,4) by (simp add: newNode_def malloc_def)
  from bucket_index_total [OF assms(1)] obtain i where "bucket_index path = Inr i"
    by blast
  from bucket_index_Inr [OF this] obtain b k h where
    f: "fileName (Some (filePath ?n, 0)) = Inr (b, k)" "hash b k = Inr h"
    by auto
  from insertNode_total [OF f] obtain rc st' where
    ins: "insertNode ?n ?st1 = Inr (rc, st')" by blast
  from insertNode_cases [OF ins] assms(2) have "rc = 0" by auto
  with ins nn show ?thesis by (simp add: trackFile_def)
qed

lemma trackFile_uninitialized:
  assumes "fileTable st = None" and "case path of None \<Rightarrow> True | Some p \<Rightarrow> path_fits p"
  shows "\<exists>st'. trackFile path mtime st = Inr (1, st') \<and> fileTable st' = None \<and>
           fileCount st' = fileCount st \<and> printed st' = printed st"
proof (cases path)
  case None
  then show ?thesis
    using assms(1) by (simp add: trackFile_def newNode_def malloc_def split: prod.splits)
next
  case (Some p)
  with assms(2) have "path_fits p" by simp
  from trackFile_total [OF this] obtain rc st' where
    t: "trackFile (Some p) mtime st = Inr (rc, st')" by blast
  from trackFile_cases [OF t] assms(1) t Some show ?thesis by auto
qed

lemma trackFiles_count:
  "trackFiles ops st = Inr (rcs, st') \<Longrightarrow>
   length rcs = length ops \<and>
   fileCount st' = fileCount st + int (length (filter (\<lambda>rc. rc = 0) rcs))"
proof (induction ops arbitrary: st rcs)
  case Nil
  then show ?case by simp
next
  case (Cons op ops)
  obtain path mtime where op: "op = (path, mtime)" by (cases op)
  from Cons.prems obtain rc st1 rcs1 where
    1: "trackFile (Some path) mtime st = Inr (rc, st1)" and
    2: "trackFiles ops st1 = Inr (rcs1, st')" and
    3: "rcs = rc # rcs1"
    unfolding op by (auto split: sum.splits)
  from trackFile_cases [OF 1] Cons.IH [OF 2] 3 show ?case by auto
qed

lemmas registry_eval =
  fresh_table_def initializeFileTable_def initial_process_def malloc_def plenty_def no_files_def
  trackFile_def newNode_def file_record_def insertNode_def fileName_def fileName_loop.simps
  strncpy_def MAX_PATH_def rd_def NUL_def hash_def hash_loop.simps char_to_long_def
  FNV_OFFSET_def FNV_PRIME_def long_rem_def TBL_SIZE_def word_sless_alt long_to_int_def
  slot_def difftime_def Let_def bucket_index_def chain_at_def freeFileTable_def
  getFileCount_def cstr_def emit_def findFile_def

lemma trackFiles_two:
  assumes "trackFiles [(pa, ta), (pb, tb)] st = Inr ([0, 0], st2)"
  shows "\<exists>st1. trackFile (Some pa) ta st = Inr (0, st1) \<and> trackFile (Some pb) tb st1 = Inr (0, st2)"
  using assms by (auto split: sum.splits)

lemma chain_after_trackFile:
  assumes "trackFile (Some path) mtime st = Inr (0, st')"
  shows "\<exists>i. bucket_index path = Inr i \<and> 0 \<le> i \<and> fileTable st \<noteq> None \<and>
           chain_at st' i = placed (file_record path mtime) (chain_at st i) \<and>
           (\<forall>j. 0 \<le> j \<longrightarrow> j \<noteq> i \<longrightarrow> chain_at st' j = chain_at st j)"
  using trackFile_cases [OF assms] by (auto simp: chain_at_def)

lemma two_registrations:
  assumes "trackFiles [(pa, ta), (pb, tb)] st = Inr ([0, 0], st2)"
    and "bucket_index pa = bucket_index pb" and "ta \<noteq> tb"
  shows "\<exists>i xs ys zs. bucket_index pa = Inr i \<and> chain_at st i = xs @ ys @ zs \<and>
           chain_at st2 i =
             xs @ (if ta < tb then file_record pb tb else file_record pa ta) # ys @
             (if ta < tb then file_record pa ta else file_record pb tb) # zs"
proof -
  from trackFiles_two [OF assms(1)] obtain st1 where
    a: "trackFile (Some pa) ta st = Inr (0, st1)" and
    b: "trackFile (Some pb) tb st1 = Inr (0, st2)" by blast
  from chain_after_trackFile [OF a] obtain i where
    i: "bucket_index pa = Inr i" "chain_at st1 i = placed (file_record pa ta) (chain_at st i)"
    by blast
  from chain_after_trackFile [OF b] assms(2) i(1)
  have "chain_at st2 i = placed (file_record pb tb) (chain_at st1 i)" by auto
  then have c: "chain_at st2 i =
      placed (file_record pb tb) (placed (file_record pa ta) (chain_at st i))"
    by (simp add: i(2))
  show ?thesis
  proof (cases "ta < tb")
    case True
    then have "modified (file_record pa ta) < modified (file_record pb tb)" by simp
    from placed_newer_after_older [OF this, of "chain_at st i"] c i(1) True
    show ?thesis by auto
  next
    case False
    with assms(3) have "modified (file_record pb tb) < modified (file_record pa ta)" by simp
    from placed_older_after_newer [OF this, of "chain_at st i"] c i(1) False
    show ?thesis by auto
  qed
qed

text \<open>
  Claim C1. Every chain stays sorted by descending modification time: when all chains of a
  state are sorted, they are sorted after any sequence of \<open>trackFile\<close> calls, whatever each
  call returns. And when two records with different times are registered one after the
  other into the same bucket, in either order, the chain afterwards is the chain before
  with the two records put in, the newer of the two ahead of the older.
\<close>

theorem newest_first_kept:
  "(chains_sorted st \<and> trackFiles ops st = Inr (rcs, st') \<longrightarrow> chains_sorted st') \<and>
   (trackFiles [(pa, ta), (pb, tb)] st = Inr ([0, 0], st2) \<and>
    bucket_index pa = bucket_index pb \<and> ta \<noteq> tb \<longrightarrow>
      (\<exists>i xs ys zs. bucket_index pa = Inr i \<and> chain_at st i = xs @ ys @ zs \<and>
         chain_at st2 i =
           xs @ (if ta < tb then file_record pb tb else file_record pa ta) # ys @
           (if ta < tb then file_record pa ta else file_record pb tb) # zs))"
  using trackFiles_chains_sorted [of st ops rcs st'] two_registrations [of pa ta pb tb st st2]
  by blast

theorem newest_first_kept_witness:
  "chains_sorted fresh_table \<and>
   trackFiles [(''/d/a.txt'', 100), (''/d/sub/a.txt'', 200)] fresh_table =
     Inr ([0, 0], \<lparr>fileTable = Some (no_files(53766 :=
            [file_record ''/d/sub/a.txt'' 200, file_record ''/d/a.txt'' 100])),
          fileCount = 2, malloc_ok = plenty, mallocs = 5, printed = []\<rparr>) \<and>
   trackFiles [(''/d/sub/a.txt'', 200), (''/d/a.txt'', 100)] fresh_table =
     Inr ([0, 0], \<lparr>fileTable = Some (no_files(53766 :=
            [file_record ''/d/sub/a.txt'' 200, file_record ''/d/a.txt'' 100])),
          fileCount = 2, malloc_ok = plenty, mallocs = 5, printed = []\<rparr>) \<and>
   bucket_index ''/d/a.txt'' = bucket_index ''/d/sub/a.txt'' \<and>
   chains_sorted \<lparr>fileTable = Some (no_files(53766 :=
            [file_record ''/d/sub/a.txt'' 200, file_record ''/d/a.txt'' 100])),
          fileCount = 2, malloc_ok = plenty, mallocs = 5, printed = []\<rparr>"
proof -
  let ?S = "\<lparr>fileTable = Some (no_files(53766 :=
            [file_record ''/d/sub/a.txt'' 200, file_record ''/d/a.txt'' 100])),
          fileCount = 2, malloc_ok = plenty, mallocs = 5, printed = []\<rparr>"
  have s: "chains_sorted fresh_table"
    by (simp add: chains_sorted_def newest_first_def registry_eval)
  have r1: "trackFiles [(''/d/a.txt'', 100), (''/d/sub/a.txt'', 200)] fresh_table = Inr ([0, 0], ?S)"
    by (simp add: registry_eval)
  have r2: "trackFiles [(''/d/sub/a.txt'', 200), (''/d/a.txt'', 100)] fresh_table = Inr ([0, 0], ?S)"
    by (simp add: registry_eval)
  have b: "bucket_index ''/d/a.txt'' = bucket_index ''/d/sub/a.txt''"
    by (simp add: registry_eval)
  have "chains_sorted ?S"
    using newest_first_kept [of fresh_table "[(''/d/a.txt'', 100), (''/d/sub/a.txt'', 200)]"
        "[0, 0]" ?S] s r1
    by blast
  with s r1 r2 b show ?thesis by blast
qed

lemma newest_first_dropWhile_older:
  assumes "newest_first c"
  shows "\<forall>z\<in>set (dropWhile (\<lambda>x. t \<le> modified x) c). modified z < t"
proof (cases "dropWhile (\<lambda>x. t \<le> modified x) c")
  case Nil
  show ?thesis unfolding Nil by simp
next
  case (Cons d ds)
  then have d: "modified d < t"
    by (metis hd_dropWhile list.sel(1) list.distinct(1) not_le)
  have "c = takeWhile (\<lambda>x. t \<le> modified x) c @ dropWhile (\<lambda>x. t \<le> modified x) c"
    by simp
  then have "sorted_wrt (\<lambda>x y. modified y \<le> modified x) (dropWhile (\<lambda>x. t \<le> modified x) c)"
    using assms by (metis newest_first_def sorted_wrt_append)
  then have "\<forall>y\<in>set ds. modified y \<le> modified d"
    unfolding Cons by simp
  with d show ?thesis unfolding Cons by auto
qed

text \<open>
  Claim C2, as the code has it. A record registered into a sorted chain is placed behind
  every record of the chain whose time is equal to its own or newer, and ahead of every
  record that is strictly older: among records of equal time the one inserted last is the
  farthest from the head.
\<close>

theorem equal_time_goes_behind:
  assumes "chains_sorted st" and "trackFile (Some path) mtime st = Inr (0, st')"
  shows "\<exists>i xs zs. bucket_index path = Inr i \<and> chain_at st i = xs @ zs \<and>
           chain_at st' i = xs @ file_record path mtime # zs \<and>
           (\<forall>x\<in>set xs. mtime \<le> modified x) \<and> (\<forall>z\<in>set zs. modified z < mtime)"
proof -
  from chain_after_trackFile [OF assms(2)] obtain i where
    i: "bucket_index path = Inr i" "fileTable st \<noteq> None"
       "chain_at st' i = placed (file_record path mtime) (chain_at st i)"
    by blast
  let ?c = "chain_at st i" and ?P = "\<lambda>x. mtime \<le> modified x"
  have "newest_first ?c"
    using assms(1) i(2) by (auto simp: chains_sorted_def chain_at_def)
  then have older: "\<forall>z\<in>set (dropWhile ?P ?c). modified z < mtime"
    by (rule newest_first_dropWhile_older)
  have notolder: "\<forall>x\<in>set (takeWhile ?P ?c). mtime \<le> modified x"
    by (auto dest: set_takeWhileD)
  have "?c = takeWhile ?P ?c @ dropWhile ?P ?c" by simp
  moreover have "chain_at st' i = takeWhile ?P ?c @ file_record path mtime # dropWhile ?P ?c"
    by (simp add: i(3) placed_def)
  ultimately show ?thesis
    using i(1) older notolder by blast
qed

theorem equal_time_goes_behind_witness:
  "chains_sorted \<lparr>fileTable = Some (no_files(239513 := [file_record ''/x/f'' 7, file_record ''/y/f'' 5, file_record ''/z/f'' 3])),
      fileCount = 3, malloc_ok = plenty, mallocs = 7, printed = []\<rparr> \<and>
   trackFile (Some ''/w/f'') 5
     \<lparr>fileTable = Some (no_files(239513 := [file_record ''/x/f'' 7, file_record ''/y/f'' 5, file_record ''/z/f'' 3])),
      fileCount = 3, malloc_ok = plenty, mallocs = 7, printed = []\<rparr> =
   Inr (0, \<lparr>fileTable = Some (no_files(239513 :=
              [file_record ''/x/f'' 7, file_record ''/y/f'' 5, file_record ''/w/f'' 5, file_record ''/z/f'' 3])),
      fileCount = 4, malloc_ok = plenty, mallocs = 9, printed = []\<rparr>) \<and>
   (\<exists>i xs zs. bucket_index ''/w/f'' = Inr i \<and>
      chain_at \<lparr>fileTable = Some (no_files(239513 := [file_record ''/x/f'' 7, file_record ''/y/f'' 5, file_record ''/z/f'' 3])),
        fileCount = 3, malloc_ok = plenty, mallocs = 7, printed = []\<rparr> i = xs @ zs \<and>
      chain_at \<lparr>fileTable = Some (no_files(239513 :=
              [file_record ''/x/f'' 7, file_record ''/y/f'' 5, file_record ''/w/f'' 5, file_record ''/z/f'' 3])),
        fileCount = 4, malloc_ok = plenty, mallocs = 9, printed = []\<rparr> i = xs @ file_record ''/w/f'' 5 # zs \<and>
      (\<forall>x\<in>set xs. 5 \<le> modified x) \<and> (\<forall>z\<in>set zs. modified z < 5))"
proof -
  let ?S = "\<lparr>fileTable = Some (no_files(239513 := [file_record ''/x/f'' 7, file_record ''/y/f'' 5, file_record ''/z/f'' 3])),
      fileCount = 3, malloc_ok = plenty, mallocs = 7, printed = []\<rparr>"
  let ?S' = "\<lparr>fileTable = Some (no_files(239513 :=
              [file_record ''/x/f'' 7, file_record ''/y/f'' 5, file_record ''/w/f'' 5, file_record ''/z/f'' 3])),
      fileCount = 4, malloc_ok = plenty, mallocs = 9, printed = []\<rparr>"
  have s: "chains_sorted ?S"
    by (simp add: chains_sorted_def newest_first_def no_files_def)
  have t: "trackFile (Some ''/w/f'') 5 ?S = Inr (0, ?S')"
    by (simp add: registry_eval)
  from equal_time_goes_behind [OF s t] s t show ?thesis by blast
qed

text \<open>
  The statement of claim C2 fails: after \<^verbatim>\<open>/x/f\<close> and then \<^verbatim>\<open>/y/f\<close> are registered with the
  same time 5, the record inserted last is second in the chain, not nearer the head.
\<close>

theorem equal_time_nearer_head_counterexample:
  "trackFiles [(''/x/f'', 5), (''/y/f'', 5)] fresh_table =
     Inr ([0, 0], \<lparr>fileTable = Some (no_files(239513 :=
            [file_record ''/x/f'' 5, file_record ''/y/f'' 5])),
          fileCount = 2, malloc_ok = plenty, mallocs = 5, printed = []\<rparr>) \<and>
   \<not> position (file_record ''/y/f'' 5) [file_record ''/x/f'' 5, file_record ''/y/f'' 5]
      < position (file_record ''/x/f'' 5) [file_record ''/x/f'' 5, file_record ''/y/f'' 5]"
  by (simp add: registry_eval position_def)

lemma count_after_first_initialization:
  assumes "initializeFileTable (initial_process mem) = (0, st0)"
    and "trackFiles ops st0 = Inr (rcs, st)"
    and "\<forall>rc\<in>set rcs. rc = 0"
  shows "getFileCount st = int (length ops)"
proof -
  have "fileCount st0 = 0"
    using assms(1)
    by (auto simp: initializeFileTable_def malloc_def initial_process_def split: if_splits)
  moreover have "filter (\<lambda>rc. rc = 0) rcs = rcs"
    using assms(3) by (simp add: filter_id_conv)
  ultimately show ?thesis
    using trackFiles_count [OF assms(2)] by (simp add: getFileCount_def)
qed

text \<open>
  Claim C5 does not hold of the code. \<open>trackFile\<close> adds 1 to \<^verbatim>\<open>fileCount\<close> each time it
  returns 0, and from the first initialization after program start the count is the
  number of successful registrations. But \<open>initializeFileTable\<close> does not assign
  \<^verbatim>\<open>fileCount\<close>: on a table that is initialized after one file was registered and the
  table was freed, one successful registration makes \<open>getFileCount\<close> return 2.
\<close>

theorem count_after_second_initialization:
  "trackFile (Some ''/d/a.txt'') 100 fresh_table =
     Inr (0, \<lparr>fileTable = Some (no_files(53766 := [file_record ''/d/a.txt'' 100])),
              fileCount = 1, malloc_ok = plenty, mallocs = 3, printed = []\<rparr>) \<and>
   freeFileTable \<lparr>fileTable = Some (no_files(53766 := [file_record ''/d/a.txt'' 100])),
              fileCount = 1, malloc_ok = plenty, mallocs = 3, printed = []\<rparr> =
     (0, \<lparr>fileTable = None, fileCount = 1, malloc_ok = plenty, mallocs = 3, printed = []\<rparr>) \<and>
   initializeFileTable
       \<lparr>fileTable = None, fileCount = 1, malloc_ok = plenty, mallocs = 3, printed = []\<rparr> =
     (0, \<lparr>fileTable = Some no_files, fileCount = 1, malloc_ok = plenty, mallocs = 4,
          printed = []\<rparr>) \<and>
   trackFiles [(''/d/b'', 50)]
       \<lparr>fileTable = Some no_files, fileCount = 1, malloc_ok = plenty, mallocs = 4,
          printed = []\<rparr> =
     Inr ([0], \<lparr>fileTable = Some (no_files(277989 := [file_record ''/d/b'' 50])),
                fileCount = 2, malloc_ok = plenty, mallocs = 6, printed = []\<rparr>) \<and>
   getFileCount \<lparr>fileTable = Some (no_files(277989 := [file_record ''/d/b'' 50])),
                fileCount = 2, malloc_ok = plenty, mallocs = 6, printed = []\<rparr> = 2"
  by (simp add: registry_eval)

text \<open>
  Claim C6. Before \<open>initializeFileTable\<close> has been called and after \<open>freeFileTable\<close> has
  released the table, \<^verbatim>\<open>fileTable\<close> is \<^verbatim>\<open>NULL\<close>; and in every state where it is, \<open>trackFile\<close>
  returns the nonzero value 1 without a fault, for the null path and for every path that
  fits into \<open>MAX_PATH\<close> chars, and it leaves the table, the count and the output as they
  were.
\<close>

theorem register_without_table_fails:
  "fileTable (initial_process mem) = None \<and>
   (freeFileTable st0 = (0, st1) \<longrightarrow> fileTable st1 = None) \<and>
   (fileTable st = None \<and> (case path of None \<Rightarrow> True | Some p \<Rightarrow> path_fits p) \<longrightarrow>
      (\<exists>st'. trackFile path mtime st = Inr (1, st') \<and> fileTable st' = None \<and>
         fileCount st' = fileCount st \<and> printed st' = printed st))"
proof -
  have "fileTable (initial_process mem) = None"
    by (simp add: initial_process_def)
  moreover have "fileTable st1 = None" if "freeFileTable st0 = (0, st1)"
    using that by (auto simp: freeFileTable_def split: option.splits)
  moreover have "\<exists>st'. trackFile path mtime st = Inr (1, st') \<and> fileTable st' = None \<and>
         fileCount st' = fileCount st \<and> printed st' = printed st"
    if "fileTable st = None" "case path of None \<Rightarrow> True | Some p \<Rightarrow> path_fits p"
    using that by (rule trackFile_uninitialized)
  ultimately show ?thesis by blast
qed

theorem register_without_table_fails_witness:
  "fileTable (initial_process plenty) = None \<and>
   trackFile (Some ''/d/a.txt'') 100 (initial_process plenty) =
     Inr (1, \<lparr>fileTable = None, fileCount = 0, malloc_ok = plenty, mallocs = 2, printed = []\<rparr>) \<and>
   freeFileTable fresh_table =
     (0, \<lparr>fileTable = None, fileCount = 0, malloc_ok = plenty, mallocs = 1, printed = []\<rparr>) \<and>
   path_fits ''/d/a.txt'' \<and>
   trackFile (Some ''/d/a.txt'') 100
       \<lparr>fileTable = None, fileCount = 0, malloc_ok = plenty, mallocs = 1, printed = []\<rparr> =
     Inr (1, \<lparr>fileTable = None, fileCount = 0, malloc_ok = plenty, mallocs = 3, printed = []\<rparr>) \<and>
   (\<exists>st'. trackFile None 100
       \<lparr>fileTable = None, fileCount = 0, malloc_ok = plenty, mallocs = 1, printed = []\<rparr> = Inr (1, st') \<and>
      fileTable st' = None \<and> fileCount st' = 0 \<and> printed st' = [])"
proof -
  let ?S = "\<lparr>fileTable = None, fileCount = 0, malloc_ok = plenty, mallocs = 1, printed = []\<rparr>"
  have f: "freeFileTable fresh_table = (0, ?S)"
    by (simp add: registry_eval)
  have p: "path_fits ''/d/a.txt''"
    by (simp add: path_fits_def c_string_of_def baseName_def NUL_def MAX_PATH_def)
  have t0: "trackFile (Some ''/d/a.txt'') 100 (initial_process plenty) =
     Inr (1, \<lparr>fileTable = None, fileCount = 0, malloc_ok = plenty, mallocs = 2, printed = []\<rparr>)"
    by (simp add: registry_eval)
  have t1: "trackFile (Some ''/d/a.txt'') 100 ?S =
     Inr (1, \<lparr>fileTable = None, fileCount = 0, malloc_ok = plenty, mallocs = 3, printed = []\<rparr>)"
    by (simp add: registry_eval)
  from register_without_table_fails [of plenty fresh_table ?S ?S None 100] f
  have "\<exists>st'. trackFile None 100 ?S = Inr (1, st') \<and>
      fileTable st' = None \<and> fileCount st' = 0 \<and> printed st' = []"
    by simp
  with f p t0 t1 show ?thesis by (simp add: initial_process_def)
qed

text \<open>
  Claim C7. On an initialized table, \<open>findFile\<close> for a name whose bucket is empty prints the
  no-match message and nothing else: it neither faults nor reports an error.
\<close>

theorem lookup_empty_bucket:
  assumes "fileTable st = Some tbl" and "hash (cstr name) 0 = Inr h"
    and "tbl (nat (long_to_int h)) = []"
  shows "findFile ctime name st = Inr (emit NoMatch st)"
  using assms hash_range [OF assms(2)] by (simp add: findFile_def slot_def)

theorem lookup_empty_bucket_witness:
  "fileTable \<lparr>fileTable = Some (no_files(277989 := [file_record ''/d/b'' 50])),
        fileCount = 1, malloc_ok = plenty, mallocs = 3, printed = []\<rparr> =
     Some (no_files(277989 := [file_record ''/d/b'' 50])) \<and>
   hash (cstr ''a.txt'') 0 = Inr 53766 \<and>
   (no_files(277989 := [file_record ''/d/b'' 50])) (nat (long_to_int 53766)) = [] \<and>
   findFile example_ctime ''a.txt''
     \<lparr>fileTable = Some (no_files(277989 := [file_record ''/d/b'' 50])),
        fileCount = 1, malloc_ok = plenty, mallocs = 3, printed = []\<rparr> =
     Inr \<lparr>fileTable = Some (no_files(277989 := [file_record ''/d/b'' 50])),
        fileCount = 1, malloc_ok = plenty, mallocs = 3, printed = [NoMatch]\<rparr>"
proof -
  let ?S = "\<lparr>fileTable = Some (no_files(277989 := [file_record ''/d/b'' 50])),
        fileCount = 1, malloc_ok = plenty, mallocs = 3, printed = []\<rparr>"
  have a: "fileTable ?S = Some (no_files(277989 := [file_record ''/d/b'' 50]))" by simp
  have b: "hash (cstr ''a.txt'') 0 = Inr 53766"
    by (simp add: registry_eval)
  have c: "(no_files(277989 := [file_record ''/d/b'' 50])) (nat (long_to_int 53766)) = []"
    by (simp add: long_to_int_def no_files_def)
  from lookup_empty_bucket [OF a b c, of example_ctime] a b c show ?thesis
    by (simp add: emit_def)
qed

text \<open>
  Claim C3 does not hold of the code: neither \<open>freeFileTable\<close> nor \<open>initializeFileTable\<close>
  assigns \<^verbatim>\<open>fileCount\<close>. After one file is registered and the table is freed and
  initialized again, every bucket is empty and a lookup finds nothing, but \<open>getFileCount\<close>
  still returns 1.
\<close>

theorem count_survives_reinitialization:
  "trackFile (Some ''/d/a.txt'') 100 fresh_table =
     Inr (0, \<lparr>fileTable = Some (no_files(53766 := [file_record ''/d/a.txt'' 100])),
              fileCount = 1, malloc_ok = plenty, mallocs = 3, printed = []\<rparr>) \<and>
   freeFileTable \<lparr>fileTable = Some (no_files(53766 := [file_record ''/d/a.txt'' 100])),
              fileCount = 1, malloc_ok = plenty, mallocs = 3, printed = []\<rparr> =
     (0, \<lparr>fileTable = None, fileCount = 1, malloc_ok = plenty, mallocs = 3, printed = []\<rparr>) \<and>
   initializeFileTable
       \<lparr>fileTable = None, fileCount = 1, malloc_ok = plenty, mallocs = 3, printed = []\<rparr> =
     (0, \<lparr>fileTable = Some no_files, fileCount = 1, malloc_ok = plenty, mallocs = 4,
          printed = []\<rparr>) \<and>
   getFileCount \<lparr>fileTable = Some no_files, fileCount = 1, malloc_ok = plenty, mallocs = 4,
          printed = []\<rparr> = 1 \<and>
   findFile example_ctime ''a.txt'' \<lparr>fileTable = Some no_files, fileCount = 1, malloc_ok = plenty,
          mallocs = 4, printed = []\<rparr> =
     Inr \<lparr>fileTable = Some no_files, fileCount = 1, malloc_ok = plenty, mallocs = 4,
          printed = [NoMatch]\<rparr>"
  by (simp add: registry_eval)

section \<open>Properties of the traversal\<close>

lemma too_long_pathName:
  "too_long (pathName dir name) \<longleftrightarrow> MAX_PATH < length dir + length name + 2"
  by (simp add: too_long_def pathName_def)

lemma scanDirectory_loop_visit_all:
  "scanDirectory_loop fs dir directory st = visit_all fs dir (entry_names directory) st"
proof (induction directory arbitrary: st)
  case Nil
  show ?case by (simp add: scanDirectory_loop.simps entry_names_def)
next
  case (Cons e directory)
  show ?case
  proof (cases "d_ino e = 0")
    case True
    have "scanDirectory_loop fs dir (e # directory) st = scanDirectory_loop fs dir directory st"
      using True
      by (simp add: scanDirectory_loop.simps [of fs dir "e # directory"]
          scanDirectory_loop.simps [of fs dir directory])
    with True Cons.IH show ?thesis by (simp add: entry_names_def)
  next
    case False
    let ?name = "content (strncpy NAME_MAX (d_name e))"
    have names: "entry_names (e # directory) =
        (if ?name \<noteq> ''.'' \<and> ?name \<noteq> ''..'' then ?name # entry_names directory
         else entry_names directory)"
      using False by (simp add: entry_names_def)
    show ?thesis
      using False Cons.IH
      by (subst scanDirectory_loop.simps) (simp add: names too_long_pathName split: sum.splits)
  qed
qed

lemma trackFile_malloc_ok:
  assumes "trackFile path mtime st = Inr (rc, st')"
  shows "malloc_ok st' = malloc_ok st"
proof -
  obtain r st1 where nn: "newNode path mtime st = (r, st1)"
    by (cases "newNode path mtime st")
  note nc = newNode_cases [OF nn]
  show ?thesis
  proof (cases r)
    case None
    with assms nn nc show ?thesis by (simp add: trackFile_def)
  next
    case (Some n)
    with assms nn have "insertNode n st1 = Inr (rc, st')" by (simp add: trackFile_def)
    from insertNode_cases [OF this] nc show ?thesis by auto
  qed
qed

lemma path_fits_pathName:
  assumes "NUL \<notin> set dir" and "name \<noteq> []" and "CHR ''/'' \<notin> set name" and "NUL \<notin> set name"
    and "\<not> too_long (pathName dir name)"
  shows "path_fits (pathName dir name)"
proof -
  have "NUL \<notin> set (pathName dir name)"
    using assms(1,4) by (simp add: pathName_def NUL_def)
  then have c: "c_string_of (pathName dir name) = pathName dir name"
    unfolding c_string_of_def by (simp only: takeWhile_eq_all_conv) auto
  have "baseName (pathName dir name) = name"
    using baseName_after_slash [of dir name] baseName_no_slash [OF assms(3)]
    by (simp add: pathName_def)
  with assms(2,5) c show ?thesis
    by (simp add: path_fits_def too_long_def)
qed

lemma entry_names_no_NUL: "name \<in> set (entry_names directory) \<Longrightarrow> NUL \<notin> set name"
  by (auto simp: entry_names_def strncpy_def dest!: in_set_takeD set_takeWhileD)

lemma scanFile_regular:
  assumes "stat fs path = Some sb" and "\<not> st_isdir sb" and "path_fits path"
    and "fileTable st = Some tbl" and "\<forall>n. malloc_ok st n"
  shows "\<exists>st'. scanFile fs path st = Inr st' \<and> fileCount st' = fileCount st + 1 \<and>
           printed st' = printed st \<and> fileTable st' \<noteq> None \<and> malloc_ok st' = malloc_ok st"
proof -
  from trackFile_succeeds [OF assms(3,4)] assms(5) obtain st' where
    t: "trackFile (Some path) (st_mtime sb) st = Inr (0, st')" by blast
  from trackFile_cases [OF t] have "fileCount st' = fileCount st + 1"
    "printed st' = printed st" "fileTable st' \<noteq> None" by auto
  with t trackFile_malloc_ok [OF t] assms(1,2) show ?thesis
    by (simp add: scanFile.simps)
qed

lemma visit_all_flat:
  assumes "fileTable st = Some tbl" and "\<forall>n. malloc_ok st n" and "NUL \<notin> set dir"
    and "\<forall>name\<in>set names. name \<noteq> [] \<and> CHR ''/'' \<notin> set name \<and> NUL \<notin> set name"
    and "\<forall>name\<in>set names.
           case stat fs (pathName dir name) of None \<Rightarrow> True | Some sb \<Rightarrow> \<not> st_isdir sb"
  shows "\<exists>st'. visit_all fs dir names st = Inr st' \<and>
           fileCount st' = fileCount st + int (length (filter (registers fs dir) names)) \<and>
           printed st' = printed st @ concat (map (reports fs dir) names)"
  using assms
proof (induction names arbitrary: st tbl)
  case Nil
  then show ?case by simp
next
  case (Cons name names)
  let ?p = "pathName dir name"
  have rest: "\<forall>name\<in>set names. name \<noteq> [] \<and> CHR ''/'' \<notin> set name \<and> NUL \<notin> set name"
    "\<forall>name\<in>set names.
           case stat fs (pathName dir name) of None \<Rightarrow> True | Some sb \<Rightarrow> \<not> st_isdir sb"
    using Cons.prems(4,5) by simp_all
  consider (long) "too_long ?p"
    | (unreadable) "\<not> too_long ?p" "stat fs ?p = None"
    | (regular) sb where "\<not> too_long ?p" "stat fs ?p = Some sb"
    by (cases "stat fs ?p") auto
  then show ?case
  proof cases
    case long
    let ?st1 = "emit (Err_PathTooLong name) st"
    have "fileTable ?st1 = Some tbl" "\<forall>n. malloc_ok ?st1 n"
      using Cons.prems(1,2) by (simp_all add: emit_def)
    moreover have "\<not> registers fs dir name" "reports fs dir name = [Err_PathTooLong name]"
      using long by (simp_all add: registers_def reports_def)
    ultimately show ?thesis
      using Cons.IH [of ?st1 tbl] Cons.prems(3) rest long by (simp add: emit_def)
  next
    case unreadable
    let ?st1 = "emit (Err_CantAccessFile ?p) st"
    have "fileTable ?st1 = Some tbl" "\<forall>n. malloc_ok ?st1 n"
      using Cons.prems(1,2) by (simp_all add: emit_def)
    moreover have "\<not> registers fs dir name"
      "reports fs dir name = [Err_CantAccessFile ?p]"
      using unreadable by (simp_all add: registers_def reports_def)
    moreover have "scanFile fs ?p st = Inr ?st1"
      using unreadable by (simp add: scanFile.simps)
    ultimately show ?thesis
      using Cons.IH [of ?st1 tbl] Cons.prems(3) rest unreadable by (simp add: emit_def)
  next
    case regular
    from Cons.prems(5) regular(2) have nd: "\<not> st_isdir sb" by simp
    have "path_fits ?p"
      using Cons.prems(3,4) regular(1) by (intro path_fits_pathName) simp_all
    from scanFile_regular [OF regular(2) nd this Cons.prems(1,2)] obtain st1 where
      s: "scanFile fs ?p st = Inr st1" "fileCount st1 = fileCount st + 1"
         "printed st1 = printed st" "fileTable st1 \<noteq> None" "malloc_ok st1 = malloc_ok st"
      by blast
    from s(4) obtain tbl1 where "fileTable st1 = Some tbl1" by auto
    moreover have "\<forall>n. malloc_ok st1 n" using s(5) Cons.prems(2) by simp
    ultimately have "\<exists>st'. visit_all fs dir names st1 = Inr st' \<and>
           fileCount st' = fileCount st1 + int (length (filter (registers fs dir) names)) \<and>
           printed st' = printed st1 @ concat (map (reports fs dir) names)"
      using Cons.prems(3) rest by (rule Cons.IH)
    moreover have "registers fs dir name" "reports fs dir name = []"
      using regular by (simp_all add: registers_def reports_def)
    ultimately show ?thesis
      using s regular by auto
  qed
qed

lemmas traversal_eval =
  scanFile.simps scanDirectory.simps scanDirectory_loop.simps example_fs_def example_stat_def
  example_opendir_def NAME_MAX_def pathName_def

lemma scanFile_directory:
  assumes "stat fs dir = Some sb" and "st_isdir sb" and "opendir fs dir = Some directory"
  shows "scanFile fs dir st =
           visit_all fs dir (entry_names directory) (emit (Note_Scanning dir) st)"
  using assms
  by (simp add: scanFile.simps scanDirectory.simps scanDirectory_loop_visit_all)

text \<open>
  Claim C8. A path on which \<^verbatim>\<open>stat\<close> fails makes \<open>scanFile\<close> print the error message and
  return, with nothing else changed; when it is the path of a directory entry, the loop
  of \<open>scanDirectory\<close> goes on with the entries after it. In the scan of a directory
  without subdirectories
  (the table allocated, no allocation failing, no entry name empty or with a separator in
  it) the scan completes, the message is printed once for every entry on which \<^verbatim>\<open>stat\<close>
  fails, in the order of the entries, and every other entry whose path is not too long is
  registered: the file count grows by the number of these.
\<close>

theorem unreadable_entries_skipped:
  "(stat fs path = None \<longrightarrow> scanFile fs path st = Inr (emit (Err_CantAccessFile path) st)) \<and>
   (readDirectoryEntry stream = Some (entry, rest) \<and>
    entry_fileName entry \<noteq> ''.'' \<and> entry_fileName entry \<noteq> ''..'' \<and>
    \<not> too_long (pathName dir (entry_fileName entry)) \<and>
    stat fs (pathName dir (entry_fileName entry)) = None \<longrightarrow>
    scanDirectory_loop fs dir stream st =
      scanDirectory_loop fs dir rest
        (emit (Err_CantAccessFile (pathName dir (entry_fileName entry))) st)) \<and>
   (stat fs dir = Some sb \<and> st_isdir sb \<and> opendir fs dir = Some directory \<and>
    fileTable st = Some tbl \<and> (\<forall>n. malloc_ok st n) \<and> NUL \<notin> set dir \<and>
    (\<forall>name\<in>set (entry_names directory). name \<noteq> [] \<and> CHR ''/'' \<notin> set name) \<and>
    (\<forall>name\<in>set (entry_names directory).
        case stat fs (pathName dir name) of None \<Rightarrow> True | Some sb' \<Rightarrow> \<not> st_isdir sb') \<longrightarrow>
    (\<exists>st'. scanFile fs dir st = Inr st' \<and>
       getFileCount st' =
         getFileCount st + int (length (filter (registers fs dir) (entry_names directory))) \<and>
       printed st' =
         printed st @ Note_Scanning dir # concat (map (reports fs dir) (entry_names directory))))"
proof (intro conjI impI)
  assume "stat fs path = None"
  then show "scanFile fs path st = Inr (emit (Err_CantAccessFile path) st)"
    by (simp add: scanFile.simps)
next
  assume "readDirectoryEntry stream = Some (entry, rest) \<and>
    entry_fileName entry \<noteq> ''.'' \<and> entry_fileName entry \<noteq> ''..'' \<and>
    \<not> too_long (pathName dir (entry_fileName entry)) \<and>
    stat fs (pathName dir (entry_fileName entry)) = None"
  then show "scanDirectory_loop fs dir stream st =
      scanDirectory_loop fs dir rest
        (emit (Err_CantAccessFile (pathName dir (entry_fileName entry))) st)"
    by (subst scanDirectory_loop.simps) (simp add: too_long_pathName scanFile.simps)
next
  assume a: "stat fs dir = Some sb \<and> st_isdir sb \<and> opendir fs dir = Some directory \<and>
    fileTable st = Some tbl \<and> (\<forall>n. malloc_ok st n) \<and> NUL \<notin> set dir \<and>
    (\<forall>name\<in>set (entry_names directory). name \<noteq> [] \<and> CHR ''/'' \<notin> set name) \<and>
    (\<forall>name\<in>set (entry_names directory).
        case stat fs (pathName dir name) of None \<Rightarrow> True | Some sb' \<Rightarrow> \<not> st_isdir sb')"
  let ?st1 = "emit (Note_Scanning dir) st"
  have s: "scanFile fs dir st = visit_all fs dir (entry_names directory) ?st1"
    using a by (intro scanFile_directory [of fs dir sb]) simp_all
  have 1: "fileTable ?st1 = Some tbl" and 2: "\<forall>n. malloc_ok ?st1 n"
    using a by (simp_all add: emit_def)
  have 3: "NUL \<notin> set dir" using a by simp
  have 4: "\<forall>name\<in>set (entry_names directory).
      name \<noteq> [] \<and> CHR ''/'' \<notin> set name \<and> NUL \<notin> set name"
    using a entry_names_no_NUL by blast
  have 5: "\<forall>name\<in>set (entry_names directory).
        case stat fs (pathName dir name) of None \<Rightarrow> True | Some sb' \<Rightarrow> \<not> st_isdir sb'"
    using a by simp
  from visit_all_flat [OF 1 2 3 4 5]
  show "\<exists>st'. scanFile fs dir st = Inr st' \<and>
       getFileCount st' =
         getFileCount st + int (length (filter (registers fs dir) (entry_names directory))) \<and>
       printed st' =
         printed st @ Note_Scanning dir # concat (map (reports fs dir) (entry_names directory))"
    unfolding s by (simp add: emit_def getFileCount_def)
qed

theorem unreadable_entries_skipped_witness:
  "scanFile example_fs ''/d/locked'' fresh_table =
     Inr \<lparr>fileTable = Some no_files, fileCount = 0, malloc_ok = plenty, mallocs = 1,
          printed = [Err_CantAccessFile ''/d/locked'']\<rparr> \<and>
   entry_names (the (opendir example_fs ''/d'')) = [''a.txt'', ''locked'', ''b''] \<and>
   filter (registers example_fs ''/d'') [''a.txt'', ''locked'', ''b''] = [''a.txt'', ''b''] \<and>
   scanDirectory_loop example_fs ''/d''
       [\<lparr>d_ino = 12, d_name = ''locked''\<rparr>, \<lparr>d_ino = 13, d_name = ''b''\<rparr>] fresh_table =
     scanDirectory_loop example_fs ''/d'' [\<lparr>d_ino = 13, d_name = ''b''\<rparr>]
       (emit (Err_CantAccessFile ''/d/locked'') fresh_table) \<and>
   scanFile example_fs ''/d'' fresh_table =
     Inr \<lparr>fileTable = Some (no_files
            (53766 := [file_record ''/d/a.txt'' 100], 277989 := [file_record ''/d/b'' 50])),
          fileCount = 2, malloc_ok = plenty, mallocs = 5,
          printed = [Note_Scanning ''/d'', Err_CantAccessFile ''/d/locked'']\<rparr> \<and>
   getFileCount \<lparr>fileTable = Some (no_files
            (53766 := [file_record ''/d/a.txt'' 100], 277989 := [file_record ''/d/b'' 50])),
          fileCount = 2, malloc_ok = plenty, mallocs = 5,
          printed = [Note_Scanning ''/d'', Err_CantAccessFile ''/d/locked'']\<rparr> = 2"
proof -
  let ?dir = "[\<lparr>d_ino = 2, d_name = ''.''\<rparr>, \<lparr>d_ino = 1, d_name = ''..''\<rparr>,
                 \<lparr>d_ino = 11, d_name = ''a.txt''\<rparr>, \<lparr>d_ino = 12, d_name = ''locked''\<rparr>,
                 \<lparr>d_ino = 13, d_name = ''b''\<rparr>]"
  let ?S = "\<lparr>fileTable = Some (no_files
            (53766 := [file_record ''/d/a.txt'' 100], 277989 := [file_record ''/d/b'' 50])),
          fileCount = 2, malloc_ok = plenty, mallocs = 5,
          printed = [Note_Scanning ''/d'', Err_CantAccessFile ''/d/locked'']\<rparr>"
  have names: "entry_names ?dir = [''a.txt'', ''locked'', ''b'']"
    by (simp add: entry_names_def strncpy_def NAME_MAX_def NUL_def)
  have o: "opendir example_fs ''/d'' = Some ?dir"
    by (simp add: example_fs_def example_opendir_def)
  have r: "filter (registers example_fs ''/d'') [''a.txt'', ''locked'', ''b''] = [''a.txt'', ''b'']"
    by (simp add: registers_def too_long_def MAX_PATH_def traversal_eval)
  have l: "scanFile example_fs ''/d/locked'' fresh_table =
     Inr \<lparr>fileTable = Some no_files, fileCount = 0, malloc_ok = plenty, mallocs = 1,
          printed = [Err_CantAccessFile ''/d/locked'']\<rparr>"
    by (simp add: traversal_eval registry_eval)
  have d: "scanFile example_fs ''/d'' fresh_table = Inr ?S"
    by (simp add: traversal_eval registry_eval)
  have h: "stat example_fs ''/d'' = Some \<lparr>st_isdir = True, st_mtime = 10\<rparr> \<and>
    st_isdir \<lparr>st_isdir = True, st_mtime = 10\<rparr> \<and> opendir example_fs ''/d'' = Some ?dir \<and>
    fileTable fresh_table = Some no_files \<and> (\<forall>n. malloc_ok fresh_table n) \<and>
    NUL \<notin> set ''/d'' \<and>
    (\<forall>name\<in>set (entry_names ?dir). name \<noteq> [] \<and> CHR ''/'' \<notin> set name) \<and>
    (\<forall>name\<in>set (entry_names ?dir).
        case stat example_fs (pathName ''/d'' name) of None \<Rightarrow> True
        | Some sb' \<Rightarrow> \<not> st_isdir sb')"
    unfolding names by (simp add: traversal_eval registry_eval)
  have e: "readDirectoryEntry [\<lparr>d_ino = 12, d_name = ''locked''\<rparr>, \<lparr>d_ino = 13, d_name = ''b''\<rparr>] =
      Some (\<lparr>entry_index = 12, entry_fileName = ''locked''\<rparr>, [\<lparr>d_ino = 13, d_name = ''b''\<rparr>]) \<and>
    entry_fileName \<lparr>entry_index = 12, entry_fileName = ''locked''\<rparr> \<noteq> ''.'' \<and>
    entry_fileName \<lparr>entry_index = 12, entry_fileName = ''locked''\<rparr> \<noteq> ''..'' \<and>
    \<not> too_long (pathName ''/d'' (entry_fileName \<lparr>entry_index = 12, entry_fileName = ''locked''\<rparr>)) \<and>
    stat example_fs
      (pathName ''/d'' (entry_fileName \<lparr>entry_index = 12, entry_fileName = ''locked''\<rparr>)) = None"
    by (simp add: strncpy_def NAME_MAX_def NUL_def too_long_def MAX_PATH_def pathName_def
        example_fs_def example_stat_def)
  note inst = unreadable_entries_skipped [where fs = example_fs and path = "''/d/locked''"
      and st = fresh_table and dir = "''/d''" and sb = "\<lparr>st_isdir = True, st_mtime = 10\<rparr>"
      and directory = ?dir and tbl = no_files
      and stream = "[\<lparr>d_ino = 12, d_name = ''locked''\<rparr>, \<lparr>d_ino = 13, d_name = ''b''\<rparr>]"
      and entry = "\<lparr>entry_index = 12, entry_fileName = ''locked''\<rparr>"
      and rest = "[\<lparr>d_ino = 13, d_name = ''b''\<rparr>]"]
  from inst h
  have "\<exists>st'. scanFile example_fs ''/d'' fresh_table = Inr st' \<and>
       getFileCount st' = getFileCount fresh_table +
          int (length (filter (registers example_fs ''/d'') (entry_names ?dir)))"
    by blast
  then have c: "getFileCount ?S = 2"
    unfolding d names r by (simp add: registry_eval)
  from inst e
  have "scanDirectory_loop example_fs ''/d''
       [\<lparr>d_ino = 12, d_name = ''locked''\<rparr>, \<lparr>d_ino = 13, d_name = ''b''\<rparr>] fresh_table =
     scanDirectory_loop example_fs ''/d'' [\<lparr>d_ino = 13, d_name = ''b''\<rparr>]
       (emit (Err_CantAccessFile ''/d/locked'') fresh_table)"
    by (simp add: pathName_def)
  with names o r l d c show ?thesis by simp
qed

text \<open>
  Claim C9. The loop of \<open>scanDirectory\<close> treats the entries of the directory one after the
  other, in the order of the stream: an entry whose constructed path is too long is
  reported and not scanned, any other entry is scanned, and in both cases the loop goes on
  with the entries that follow. A constructed path is too long when it does not fit, with
  its terminator, into \<open>MAX_PATH\<close> chars; this is the test the code makes on the two
  lengths.
\<close>

theorem too_long_entries_skipped:
  "scanDirectory_loop fs dir directory st = visit_all fs dir (entry_names directory) st \<and>
   (too_long (pathName dir name) \<longleftrightarrow> MAX_PATH < length dir + length name + 2)"
  using scanDirectory_loop_visit_all [of fs dir directory st] too_long_pathName [of dir name]
  by simp

theorem too_long_entries_skipped_witness:
  "too_long (pathName long_directory ''abcdefgh'') \<and>
   \<not> too_long (pathName long_directory ''b'') \<and>
   scanDirectory_loop example_fs long_directory
       [\<lparr>d_ino = 5, d_name = ''abcdefgh''\<rparr>, \<lparr>d_ino = 6, d_name = ''b''\<rparr>] fresh_table =
     Inr \<lparr>fileTable = Some no_files, fileCount = 0, malloc_ok = plenty, mallocs = 1,
          printed = [Err_PathTooLong ''abcdefgh'',
                     Err_CantAccessFile (pathName long_directory ''b'')]\<rparr>"
proof -
  let ?dir = "[\<lparr>d_ino = 5, d_name = ''abcdefgh''\<rparr>, \<lparr>d_ino = 6, d_name = ''b''\<rparr>]"
  have names: "entry_names ?dir = [''abcdefgh'', ''b'']"
    by (simp add: entry_names_def strncpy_def NAME_MAX_def NUL_def)
  have long: "too_long (pathName long_directory ''abcdefgh'')"
    and fits: "\<not> too_long (pathName long_directory ''b'')"
    using too_long_entries_skipped [of example_fs long_directory ?dir fresh_table "''abcdefgh''"]
      too_long_entries_skipped [of example_fs long_directory ?dir fresh_table "''b''"]
    by (simp_all add: long_directory_def MAX_PATH_def)
  have "length (pathName long_directory ''b'') = 4092"
    by (simp add: pathName_def long_directory_def)
  then have "pathName long_directory ''b'' \<noteq> ''/d''"
    "pathName long_directory ''b'' \<noteq> ''/d/a.txt''"
    "pathName long_directory ''b'' \<noteq> ''/d/b''"
    by auto
  then have none: "stat example_fs (pathName long_directory ''b'') = None"
    by (simp add: example_fs_def example_stat_def)
  have "scanDirectory_loop example_fs long_directory ?dir fresh_table =
      visit_all example_fs long_directory (entry_names ?dir) fresh_table"
    using too_long_entries_skipped [of example_fs long_directory ?dir fresh_table "''b''"]
    by simp
  also have "\<dots> = Inr \<lparr>fileTable = Some no_files, fileCount = 0, malloc_ok = plenty,
          mallocs = 1,
          printed = [Err_PathTooLong ''abcdefgh'',
                     Err_CantAccessFile (pathName long_directory ''b'')]\<rparr>"
    unfolding names using long fits none
    by (simp add: scanFile.simps emit_def fresh_table_def initializeFileTable_def
        initial_process_def malloc_def plenty_def)
  finally show ?thesis using long fits by simp
qed

end
